theory Spec2Isabelle
  imports Main
begin

section \<open>Spotify data (the interfaces of spotify-service.ts)\<close>

text \<open>
  The TypeScript interfaces become records. A field the interface marks optional, or
  that the code tests for presence, is an \<open>option\<close>. The JSON field \<open>id\<close> is
  \<open>artist_id\<close> or \<open>track_id\<close> here, \<open>name\<close> is \<open>artist_name\<close>, \<open>track_name\<close> or
  \<open>album_name\<close>, and \<open>external_urls.spotify\<close> is \<open>track_link\<close>.
\<close>

record SpotifyArtist =
  artist_id :: string
  artist_name :: string
  genres :: "string list option"

record SpotifyAlbum =
  album_name :: string
  release_date :: string

record SpotifyTrack =
  track_id :: string
  track_name :: string
  artists :: "SpotifyArtist list"
  album :: SpotifyAlbum
  track_link :: string

record SpotifySavedTrackObject =
  added_at :: string
  track :: SpotifyTrack

text \<open>
  \<open>JSON.parse(responseBody) as T\<close> checks nothing, so a parsed body is one object whose
  fields may each be missing: \<open>items\<close> and \<open>next\<close> (SpotifySavedTracksResponse) and
  \<open>artists\<close> (SpotifyArtistsResponse, whose entries the code tests for null). A body
  on which the \<open>try\<close> block throws is \<open>Unparsable\<close>.
\<close>

record ParsedBody =
  items :: "SpotifySavedTrackObject list option"
  next_url :: "string option"
  artists_field :: "SpotifyArtist option list option"

datatype content = Unparsable | Parsed ParsedBody

record HTTPResponse =
  responseCode :: nat
  responseBody :: content

section \<open>The platform: OAuth2 service and UrlFetchApp\<close>

text \<open>
  The upstream is an oracle indexed by the number of requests the run has made so far, so
  that it may answer the same URL differently over time and let the token expire.
  The session is the state the service functions thread through: the request clock, whether
  \<open>resetSpotifyService\<close> has dropped the stored token, and the log of URLs requested.
  Platform calls are taken to return: the script properties hold the client credentials
  (\<open>getSpotifyService\<close> does not throw) and \<open>UrlFetchApp.fetch\<close>, called with
  \<open>muteHttpExceptions\<close>, yields a response. \<open>Utilities.sleep\<close> changes no state and is
  left out.
\<close>

record upstream =
  tokenValid :: "nat \<Rightarrow> bool"
  serve :: "nat \<Rightarrow> string \<Rightarrow> HTTPResponse"

record session =
  clock :: nat
  revoked :: bool
  requests :: "string list"

definition hasAccess :: "upstream \<Rightarrow> session \<Rightarrow> bool" where
  "hasAccess up s = (\<not> revoked s \<and> tokenValid up (clock s))"

definition resetSpotifyService :: "session \<Rightarrow> session" where
  "resetSpotifyService s = s\<lparr>revoked := True\<rparr>"

definition isSpotifyAuthorized :: "upstream \<Rightarrow> session \<Rightarrow> bool" where
  "isSpotifyAuthorized up s = hasAccess up s"

definition urlFetch :: "upstream \<Rightarrow> string \<Rightarrow> session \<Rightarrow> HTTPResponse \<times> session" where
  "urlFetch up url s =
     (serve up (clock s) url, s\<lparr>clock := Suc (clock s), requests := requests s @ [url]\<rparr>)"

text \<open>JavaScript truthiness of a \<open>string | null\<close>: neither null nor the empty string.\<close>

definition truthy :: "string option \<Rightarrow> bool" where
  "truthy u = (case u of None \<Rightarrow> False | Some v \<Rightarrow> v \<noteq> [])"

definition apiBase :: string where
  "apiBase = ''https://api.spotify.com/v1/''"

definition savedTracksUrl :: string where
  "savedTracksUrl = ''https://api.spotify.com/v1/me/tracks?limit=50''"

section \<open>fetchSpotifyApi and getArtistsDetails\<close>

definition fetchSpotifyApi :: "upstream \<Rightarrow> string \<Rightarrow> session \<Rightarrow> ParsedBody option \<times> session" where
  "fetchSpotifyApi up endpoint s =
     (if \<not> hasAccess up s then (None, s)
      else
        let url = apiBase @ endpoint;
            (response, s1) = urlFetch up url s
        in if responseCode response = 200 \<or> responseCode response = 201 then
             (case responseBody response of
                Parsed b \<Rightarrow> (Some b, s1)
              | Unparsable \<Rightarrow> (None, s1))
           else if responseCode response = 401 then (None, resetSpotifyService s1)
           else (None, s1))"

text \<open>\<open>Array.prototype.join\<close> on strings.\<close>

fun join :: "string \<Rightarrow> string list \<Rightarrow> string" where
  "join sep [] = []"
| "join sep [x] = x"
| "join sep (x # y # ys) = x @ sep @ join sep (y # ys)"

text \<open>
  The argument is \<open>None\<close> when the caller passes no array. The result is \<open>None\<close> for the
  falsy results (\<open>null\<close>, or \<open>undefined\<close> when the body has no \<open>artists\<close> field), which
  the only caller does not tell apart.
\<close>

definition getArtistsDetails ::
  "upstream \<Rightarrow> string list option \<Rightarrow> session \<Rightarrow> SpotifyArtist option list option \<times> session" where
  "getArtistsDetails up artistIds s =
     (case artistIds of
        None \<Rightarrow> (Some [], s)
      | Some ids \<Rightarrow>
          if length ids = 0 then (Some [], s)
          else
            let ids' = (if length ids > 50 then take 50 ids else ids);
                idsParam = join '','' ids';
                (response, s1) = fetchSpotifyApi up (''artists?ids='' @ idsParam) s
            in (case response of
                  Some b \<Rightarrow> (artists_field b, s1)
                | None \<Rightarrow> (None, s1)))"

section \<open>The paginated walkers\<close>

text \<open>
  The inner \<open>for\<close> loop of getNewSavedTracks over one page: it pushes items until one is
  known, and returns the tracks so far with \<open>foundExistingTrack\<close>.
\<close>

fun scanItems ::
  "string set \<Rightarrow> SpotifySavedTrackObject list \<Rightarrow> SpotifySavedTrackObject list
     \<Rightarrow> SpotifySavedTrackObject list \<times> bool" where
  "scanItems existingTrackIds [] newTracks = (newTracks, False)"
| "scanItems existingTrackIds (item # rest) newTracks =
     (if track_id (track item) \<in> existingTrackIds then (newTracks, True)
      else scanItems existingTrackIds rest (newTracks @ [item]))"

text \<open>
  The \<open>while\<close> loop. The cursor chain of an upstream need not end, so the loop takes fuel:
  the outer \<open>None\<close> means the fuel ran out, \<open>Some (None, s)\<close> is the \<open>null\<close> the source
  returns on a failure and \<open>Some (Some tracks, s)\<close> a completed list.
\<close>

fun newSavedTracksLoop ::
  "nat \<Rightarrow> upstream \<Rightarrow> string set \<Rightarrow> string option \<Rightarrow> bool \<Rightarrow> SpotifySavedTrackObject list
     \<Rightarrow> session \<Rightarrow> (SpotifySavedTrackObject list option \<times> session) option" where
  "newSavedTracksLoop 0 up existingTrackIds nextUrl foundExistingTrack newTracks s =
     (if truthy nextUrl \<and> \<not> foundExistingTrack then None else Some (Some newTracks, s))"
| "newSavedTracksLoop (Suc fuel) up existingTrackIds nextUrl foundExistingTrack newTracks s =
     (if truthy nextUrl \<and> \<not> foundExistingTrack then
        if \<not> hasAccess up s then Some (None, s)
        else
          let (response, s1) = urlFetch up (the nextUrl) s
          in if responseCode response = 200 then
               (case responseBody response of
                  Unparsable \<Rightarrow> Some (None, s1)
                | Parsed pageData \<Rightarrow>
                    let (newTracks', found') =
                          (case items pageData of
                             None \<Rightarrow> (newTracks, foundExistingTrack)
                           | Some its \<Rightarrow> scanItems existingTrackIds its newTracks)
                    in newSavedTracksLoop fuel up existingTrackIds
                         (if found' then None else next_url pageData) found' newTracks' s1)
             else if responseCode response = 401 then Some (None, resetSpotifyService s1)
             else if responseCode response = 429 then Some (None, s1)
             else Some (None, s1)
      else Some (Some newTracks, s))"

definition getNewSavedTracks ::
  "nat \<Rightarrow> upstream \<Rightarrow> string set \<Rightarrow> session
     \<Rightarrow> (SpotifySavedTrackObject list option \<times> session) option" where
  "getNewSavedTracks fuel up existingTrackIds s =
     newSavedTracksLoop fuel up existingTrackIds (Some savedTracksUrl) False [] s"

fun allSavedTracksLoop ::
  "nat \<Rightarrow> upstream \<Rightarrow> string option \<Rightarrow> SpotifySavedTrackObject list \<Rightarrow> session
     \<Rightarrow> (SpotifySavedTrackObject list option \<times> session) option" where
  "allSavedTracksLoop 0 up nextUrl allTracks s =
     (if truthy nextUrl then None else Some (Some allTracks, s))"
| "allSavedTracksLoop (Suc fuel) up nextUrl allTracks s =
     (if truthy nextUrl then
        if \<not> hasAccess up s then Some (None, s)
        else
          let (response, s1) = urlFetch up (the nextUrl) s
          in if responseCode response = 200 then
               (case responseBody response of
                  Unparsable \<Rightarrow> Some (None, s1)
                | Parsed pageData \<Rightarrow>
                    allSavedTracksLoop fuel up (next_url pageData)
                      (case items pageData of
                         None \<Rightarrow> allTracks
                       | Some its \<Rightarrow> allTracks @ its) s1)
             else if responseCode response = 401 then Some (None, resetSpotifyService s1)
             else if responseCode response = 429 then Some (None, s1)
             else Some (None, s1)
      else Some (Some allTracks, s))"

definition getAllMySavedTracks ::
  "nat \<Rightarrow> upstream \<Rightarrow> session \<Rightarrow> (SpotifySavedTrackObject list option \<times> session) option" where
  "getAllMySavedTracks fuel up s = allSavedTracksLoop fuel up (Some savedTracksUrl) [] s"

section \<open>The sheet (SpreadsheetApp)\<close>

text \<open>
  The sheet named "Spotify Liked Songs" is a grid of cells, a list of rows. Cells are
  strings; a cell beyond the end of its row is blank, and a blank cell is the empty string
  (falsy in the source's tests). Rows and columns of the Sheets API count from 1, and the
  ranges the source uses all start at column 1.
\<close>

type_synonym grid = "string list list"

text \<open>
  The store a run meets: no active spreadsheet (\<open>getActiveSpreadsheet\<close> gives null), a
  spreadsheet without the sheet (\<open>getSheetByName\<close> gives null), or the sheet with its
  rows, as \<open>getDataRange().getValues()\<close> reads them.
\<close>

datatype store = NoSpreadsheet | NoSheet | Sheet grid

definition cellAt :: "string list \<Rightarrow> nat \<Rightarrow> string" where
  "cellAt row c = (if c < length row then row ! c else [])"

definition rowAt :: "grid \<Rightarrow> nat \<Rightarrow> string list" where
  "rowAt g r = (if 1 \<le> r \<and> r \<le> length g then g ! (r - 1) else [])"

definition appendRow :: "string list \<Rightarrow> grid \<Rightarrow> grid" where
  "appendRow r g = g @ [r]"

definition insertRowsAfter :: "nat \<Rightarrow> nat \<Rightarrow> grid \<Rightarrow> grid" where
  "insertRowsAfter afterPosition howMany g =
     take afterPosition g @ replicate howMany [] @ drop afterPosition g"

text \<open>\<open>getRange(r, 1, 1, n).getValues()[0]\<close>: the first \<open>n\<close> cells of row \<open>r\<close>.\<close>

definition rowValues :: "nat \<Rightarrow> nat \<Rightarrow> grid \<Rightarrow> string list" where
  "rowValues r n g = map (cellAt (rowAt g r)) [0..<n]"

text \<open>
  \<open>getRange(r, 1, length values, n).setValues(values)\<close>: the rows of \<open>values\<close> overwrite
  the leading cells of rows \<open>r\<close>, \<open>r + 1\<close>, ...; cells to the right keep their content,
  and the data range grows when the rows lie below it.
\<close>

definition writeCells :: "string list \<Rightarrow> string list \<Rightarrow> string list" where
  "writeCells vals old = vals @ drop (length vals) old"

definition writeRow :: "nat \<Rightarrow> string list \<Rightarrow> grid \<Rightarrow> grid" where
  "writeRow r vals g =
     (let g' = g @ replicate (r - length g) []
      in g'[r - 1 := writeCells vals (g' ! (r - 1))])"

fun setValues :: "nat \<Rightarrow> string list list \<Rightarrow> grid \<Rightarrow> grid" where
  "setValues r [] g = g"
| "setValues r (vals # rest) g = setValues (Suc r) rest (writeRow r vals g)"

section \<open>updateLikedSongsSheet\<close>

definition header :: "string list" where
  "header = [''Added At'', ''Release Date'', ''Track Name'', ''Artists'', ''Album Name'',
             ''Track ID'', ''Genres'', ''Track Link'']"

text \<open>\<open>Array.prototype.indexOf\<close>, with \<open>None\<close> for -1.\<close>

fun indexOf :: "'a list \<Rightarrow> 'a \<Rightarrow> nat option" where
  "indexOf [] x = None"
| "indexOf (y # ys) x = (if y = x then Some 0 else map_option Suc (indexOf ys x))"

text \<open>
  The block under \<open>if (sheet)\<close>: the ids of the key column, rows 2 onwards, blank cells
  skipped. The column is looked up in the constant \<open>header\<close>, not in the sheet's own first
  row.
\<close>

definition readExistingTrackIds :: "grid \<Rightarrow> string set" where
  "readExistingTrackIds data =
     (if length data > 1 then
        (case indexOf header ''Track ID'' of
           Some trackIdColumnIndex \<Rightarrow>
             fold (\<lambda>row ids.
                     if cellAt row trackIdColumnIndex \<noteq> []
                     then insert (cellAt row trackIdColumnIndex) ids else ids)
                  (drop 1 data) {}
         | None \<Rightarrow> {})
      else {})"

text \<open>No sheet of that name: the set stays empty.\<close>

definition existingTrackIdsOf :: "store \<Rightarrow> string set" where
  "existingTrackIdsOf st =
     (case st of Sheet data \<Rightarrow> readExistingTrackIds data | _ \<Rightarrow> {})"

text \<open>
  A JavaScript \<open>Set\<close> iterates in insertion order, and \<open>Array.from\<close> keeps that order:
  the set is a list without repetitions, and \<open>add\<close> appends an element that is not in it.
\<close>

definition setAdd :: "'a \<Rightarrow> 'a list \<Rightarrow> 'a list" where
  "setAdd x xs = (if x \<in> set xs then xs else xs @ [x])"

definition collectArtistIds :: "SpotifySavedTrackObject list \<Rightarrow> string list" where
  "collectArtistIds newTracks =
     fold (\<lambda>item ids.
             fold (\<lambda>artist ids.
                     if artist_id artist \<noteq> [] then setAdd (artist_id artist) ids else ids)
                  (artists (track item)) ids)
          newTracks []"

definition chunkSize :: nat where
  "chunkSize = 50"

text \<open>\<open>Array.prototype.slice(i, j)\<close> for \<open>0 \<le> i \<le> j\<close>.\<close>

definition slice :: "'a list \<Rightarrow> nat \<Rightarrow> nat \<Rightarrow> 'a list" where
  "slice xs i j = take (j - i) (drop i xs)"

type_synonym genreMap = "string \<rightharpoonup> string list"

text \<open>The \<open>forEach\<close> over one batch's artists: \<open>artistGenresMap.set\<close> for each usable entry.\<close>

definition storeGenres :: "SpotifyArtist option list \<Rightarrow> genreMap \<Rightarrow> genreMap" where
  "storeGenres artistsDetails m =
     fold (\<lambda>entry m.
             case entry of
               None \<Rightarrow> m
             | Some artist \<Rightarrow>
                 if artist_id artist \<noteq> [] then
                   (case genres artist of
                      Some gs \<Rightarrow> m(artist_id artist \<mapsto> gs)
                    | None \<Rightarrow> m)
                 else m)
          artistsDetails m"

function fetchGenresLoop ::
  "upstream \<Rightarrow> string list \<Rightarrow> nat \<Rightarrow> genreMap \<Rightarrow> session \<Rightarrow> genreMap \<times> session" where
  "fetchGenresLoop up uniqueArtistIds i m s =
     (if i < length uniqueArtistIds then
        let chunk = slice uniqueArtistIds i (i + chunkSize);
            (artistsDetails, s1) = getArtistsDetails up (Some chunk) s
        in (case artistsDetails of
              Some details \<Rightarrow>
                fetchGenresLoop up uniqueArtistIds (i + chunkSize) (storeGenres details m) s1
            | None \<Rightarrow> fetchGenresLoop up uniqueArtistIds (i + chunkSize) m s1)
      else (m, s))"
  by pat_completeness auto
termination
  by (relation "measure (\<lambda>(up, ids, i, m, s). length ids - i)") (auto simp: chunkSize_def)

text \<open>The genres of one track: the \<open>Set\<close> filled artist by artist, genre by genre.\<close>

definition trackGenres :: "genreMap \<Rightarrow> SpotifyTrack \<Rightarrow> string list" where
  "trackGenres artistGenresMap t =
     fold (\<lambda>artist acc.
             case artistGenresMap (artist_id artist) of
               Some gs \<Rightarrow> fold setAdd gs acc
             | None \<Rightarrow> acc)
          (artists t) []"

definition newRow :: "genreMap \<Rightarrow> SpotifySavedTrackObject \<Rightarrow> string list" where
  "newRow artistGenresMap item =
     (let t = track item;
          artistNames = join '', '' (map artist_name (artists t));
          trackLink = track_link t;
          genresString = join '', '' (trackGenres artistGenresMap t);
          releaseDate = release_date (album t)
      in [added_at item, releaseDate, track_name t, artistNames, album_name (album t),
          track_id t, genresString, trackLink])"

text \<open>
  What a run reports in its log. The run returns the store it leaves and that report; the
  outer \<open>None\<close> is the walker running out of fuel. The tracks are typed data, so the
  \<open>try\<close> block has no property of null to trip over, and the sheet operations are
  taken to succeed: the \<open>catch\<close> branch is not modelled.
\<close>

datatype outcome =
  NotAuthorized | NoActiveSpreadsheet | FetchFailed | NoNewSongs | NothingToInsert
  | Inserted nat

definition initialSession :: session where
  "initialSession = \<lparr>clock = 0, revoked = False, requests = []\<rparr>"

text \<open>
  The \<open>try\<close> block's first statement: create the sheet or give it its header row.
  The source's \<open>lastRow\<close> is the number of rows read from the sheet.
\<close>

definition prepareSheet :: "store \<Rightarrow> grid" where
  "prepareSheet st =
     (case st of
        Sheet g \<Rightarrow>
          if length g = 0 then appendRow header g
          else if length g = 1 \<and> concat (rowValues 1 (length header) g) = []
            then setValues 1 [header] g
          else g
      | _ \<Rightarrow> appendRow header [])"

definition fetchArtistGenres ::
  "upstream \<Rightarrow> SpotifySavedTrackObject list \<Rightarrow> session \<Rightarrow> genreMap \<times> session" where
  "fetchArtistGenres up newTracks s =
     (let uniqueArtistIds = collectArtistIds newTracks
      in if length uniqueArtistIds > 0
         then fetchGenresLoop up uniqueArtistIds 0 Map.empty s
         else (Map.empty, s))"

definition updateLikedSongsSheet :: "nat \<Rightarrow> upstream \<Rightarrow> store \<Rightarrow> (store \<times> outcome) option" where
  "updateLikedSongsSheet fuel up st =
     (if \<not> isSpotifyAuthorized up initialSession then Some (st, NotAuthorized)
      else
        (case st of
           NoSpreadsheet \<Rightarrow> Some (st, NoActiveSpreadsheet)
         | _ \<Rightarrow>
             let existingTrackIds = existingTrackIdsOf st
             in (case getNewSavedTracks fuel up existingTrackIds initialSession of
                   None \<Rightarrow> None
                 | Some (None, s1) \<Rightarrow> Some (st, FetchFailed)
                 | Some (Some newTracks, s1) \<Rightarrow>
                     if length newTracks = 0 then Some (st, NoNewSongs)
                     else
                       let (artistGenresMap, s2) = fetchArtistGenres up newTracks s1;
                           sheet = prepareSheet st;
                           newData = map (newRow artistGenresMap) newTracks
                       in if length newData > 0 then
                            Some (Sheet (setValues 2 newData
                                           (insertRowsAfter 1 (length newData) sheet)),
                                  Inserted (length newData))
                          else Some (Sheet sheet, NothingToInsert))))"

section \<open>Describing what an upstream serves\<close>

text \<open>
  The definitions of this section are not code of the repository: they say what an upstream
  does along one walk, so that the properties of the walkers can be stated.
\<close>

definition pageItems :: "ParsedBody \<Rightarrow> SpotifySavedTrackObject list" where
  "pageItems p = (case items p of None \<Rightarrow> [] | Some its \<Rightarrow> its)"

definition isNew :: "string set \<Rightarrow> SpotifySavedTrackObject \<Rightarrow> bool" where
  "isNew existingTrackIds item = (track_id (track item) \<notin> existingTrackIds)"

text \<open>In session \<open>s\<close> the token is good and the request for \<open>url\<close> is answered 200 with page \<open>p\<close>.\<close>

definition pageServed :: "upstream \<Rightarrow> session \<Rightarrow> string \<Rightarrow> ParsedBody \<Rightarrow> bool" where
  "pageServed up s url p =
     (hasAccess up s \<and>
      fst (urlFetch up url s) = \<lparr>responseCode = 200, responseBody = Parsed p\<rparr>)"

text \<open>The same without naming the page: every other case is a per-page fetch failure.\<close>

definition pageFetchOk :: "upstream \<Rightarrow> session \<Rightarrow> string \<Rightarrow> bool" where
  "pageFetchOk up s url =
     (hasAccess up s \<and> responseCode (fst (urlFetch up url s)) = 200 \<and>
      responseBody (fst (urlFetch up url s)) \<noteq> Unparsable)"

text \<open>
  \<open>walk up s cursor ps s' cursor'\<close>: from session \<open>s\<close> and cursor \<open>cursor\<close>, following
  the cursor chain yields the pages \<open>ps\<close> one after the other, each served, and leaves
  session \<open>s'\<close> and the cursor \<open>cursor'\<close> of the last page.
\<close>

fun walk ::
  "upstream \<Rightarrow> session \<Rightarrow> string option \<Rightarrow> ParsedBody list \<Rightarrow> session \<Rightarrow> string option
     \<Rightarrow> bool" where
  "walk up s cursor [] s' cursor' = (s' = s \<and> cursor' = cursor)"
| "walk up s cursor (p # ps) s' cursor' =
     (truthy cursor \<and> pageServed up s (the cursor) p \<and>
      walk up (snd (urlFetch up (the cursor) s)) (next_url p) ps s' cursor')"

text \<open>The URLs of the pages of a chain, and the session after requesting a list of URLs.\<close>

fun cursors :: "string option \<Rightarrow> ParsedBody list \<Rightarrow> string list" where
  "cursors cursor [] = []"
| "cursors cursor (p # ps) = the cursor # cursors (next_url p) ps"

definition fetched :: "session \<Rightarrow> string list \<Rightarrow> session" where
  "fetched s urls = s\<lparr>clock := clock s + length urls, requests := requests s @ urls\<rparr>"

text \<open>
  How many pages of a chain lie up to and including the first page that holds a known
  item (all of them when no page does).
\<close>

fun pagesNeeded :: "string set \<Rightarrow> ParsedBody list \<Rightarrow> nat" where
  "pagesNeeded known [] = 0"
| "pagesNeeded known (p # ps) =
     (if list_all (isNew known) (pageItems p) then Suc (pagesNeeded known ps) else 1)"

section \<open>Describing the genre enrichment\<close>

text \<open>
  Not code of the repository either: the partition into chunks as the specification words
  it, one lookup as a state transformer, and the de-duplicated union in first-seen order.
\<close>

text \<open>Consecutive chunks of at most \<open>n\<close> elements.\<close>

fun chunksOf :: "nat \<Rightarrow> 'a list \<Rightarrow> 'a list list" where
  "chunksOf n xs = (if n = 0 \<or> xs = [] then [] else take n xs # chunksOf n (drop n xs))"

text \<open>The URL of the lookup of one chunk.\<close>

definition artistsUrl :: "string list \<Rightarrow> string" where
  "artistsUrl chunk = apiBase @ ''artists?ids='' @ join '','' chunk"

text \<open>One call of getArtistsDetails for a chunk, its result merged into the index.\<close>

definition lookupChunk :: "upstream \<Rightarrow> string list \<Rightarrow> genreMap \<times> session \<Rightarrow> genreMap \<times> session" where
  "lookupChunk up chunk ms =
     (let (details, s1) = getArtistsDetails up (Some chunk) (snd ms)
      in (case details of Some ds \<Rightarrow> storeGenres ds (fst ms) | None \<Rightarrow> fst ms, s1))"

text \<open>The token is good at every request count, and no request is answered 401.\<close>

definition keepsAccess :: "upstream \<Rightarrow> bool" where
  "keepsAccess up =
     ((\<forall>k. tokenValid up k) \<and> (\<forall>k url. responseCode (serve up k url) \<noteq> 401))"

text \<open>Each element once, at the place of its first occurrence.\<close>

fun firstSeen :: "'a list \<Rightarrow> 'a list" where
  "firstSeen [] = []"
| "firstSeen (x # xs) = x # firstSeen (filter (\<lambda>y. y \<noteq> x) xs)"

text \<open>The genres the index holds for an artist, none when it has no entry.\<close>

definition genresOf :: "genreMap \<Rightarrow> SpotifyArtist \<Rightarrow> string list" where
  "genresOf artistGenresMap artist =
     (case artistGenresMap (artist_id artist) of Some gs \<Rightarrow> gs | None \<Rightarrow> [])"

section \<open>Describing the store\<close>

text \<open>
  Not code of the repository: the rows below the first row of the sheet, the first row a
  writing run leaves, and the key column of the rows below it.
\<close>

definition dataRows :: "store \<Rightarrow> grid" where
  "dataRows st = (case st of Sheet g \<Rightarrow> drop 1 g | _ \<Rightarrow> [])"

definition firstRow :: "store \<Rightarrow> string list" where
  "firstRow st = rowAt (prepareSheet st) 1"

definition trackIdColumn :: "store \<Rightarrow> string list" where
  "trackIdColumn st = map (\<lambda>row. cellAt row 5) (dataRows st)"

text \<open>The tracks a run finds new, with the session after the walk, when the walk succeeds.\<close>

definition newTracksOf ::
  "nat \<Rightarrow> upstream \<Rightarrow> store \<Rightarrow> (SpotifySavedTrackObject list \<times> session) option" where
  "newTracksOf fuel up st =
     (case getNewSavedTracks fuel up (existingTrackIdsOf st) initialSession of
        Some (Some newTracks, s1) \<Rightarrow> Some (newTracks, s1)
      | _ \<Rightarrow> None)"

text \<open>The rows a run writes for the tracks it found, with the genres it could fetch.\<close>

definition newRowsOf :: "upstream \<Rightarrow> SpotifySavedTrackObject list \<times> session \<Rightarrow> grid" where
  "newRowsOf up found =
     map (newRow (fst (fetchArtistGenres up (fst found) (snd found)))) (fst found)"






section \<open>Example data\<close>

definition mkArtist :: "string \<Rightarrow> SpotifyArtist" where
  "mkArtist a = \<lparr>artist_id = a, artist_name = a, genres = None\<rparr>"

definition mkItem :: "string \<Rightarrow> string list \<Rightarrow> SpotifySavedTrackObject" where
  "mkItem t as =
     \<lparr>added_at = ''2025-05-01'',
      track = \<lparr>track_id = t, track_name = t, artists = map mkArtist as,
               album = \<lparr>album_name = ''LP'', release_date = ''2024''\<rparr>,
               track_link = []\<rparr>\<rparr>"

definition mkPage :: "SpotifySavedTrackObject list \<Rightarrow> string option \<Rightarrow> ParsedBody" where
  "mkPage its nxt = \<lparr>items = Some its, next_url = nxt, artists_field = None\<rparr>"

definition ok :: "ParsedBody \<Rightarrow> HTTPResponse" where
  "ok b = \<lparr>responseCode = 200, responseBody = Parsed b\<rparr>"

definition failure :: "nat \<Rightarrow> HTTPResponse" where
  "failure code = \<lparr>responseCode = code, responseBody = Unparsable\<rparr>"

text \<open>An upstream that answers by URL alone, 404 for a URL it does not know.\<close>

definition staticUpstream :: "(string \<times> HTTPResponse) list \<Rightarrow> upstream" where
  "staticUpstream table =
     \<lparr>tokenValid = (\<lambda>k. True),
      serve = (\<lambda>k url. case map_of table url of Some r \<Rightarrow> r | None \<Rightarrow> failure 404)\<rparr>"

text \<open>The items n1, n2, n3, k1, k2 on three pages.\<close>

definition exPages :: "ParsedBody list" where
  "exPages = [mkPage [mkItem ''n1'' [], mkItem ''n2'' []] (Some ''p2''),
              mkPage [mkItem ''n3'' [], mkItem ''k1'' []] (Some ''p3''),
              mkPage [mkItem ''k2'' []] None]"

definition exUp :: upstream where
  "exUp = staticUpstream (zip [savedTracksUrl, ''p2'', ''p3''] (map ok exPages))"

text \<open>The second page is refused with 429.\<close>

definition exRateLimited :: upstream where
  "exRateLimited = staticUpstream
     [(savedTracksUrl, ok (mkPage [mkItem ''n1'' [], mkItem ''n2'' []] (Some ''p2''))),
      (''p2'', failure 429)]"

text \<open>121 two-letter ids, pairwise different.\<close>

definition exIds :: "string list" where
  "exIds = concat (map (\<lambda>x. map (\<lambda>y. [x, y]) ''abcdefghijk'') ''abcdefghijk'')"


text \<open>The row of a track without artists, when no genre is known.\<close>

definition rowOf :: "string \<Rightarrow> string list" where
  "rowOf t = newRow Map.empty (mkItem t [])"

text \<open>Two states of the collection: a, b, p and later c, d, a, b, p.\<close>

definition exFirst :: upstream where
  "exFirst = staticUpstream
     [(savedTracksUrl, ok (mkPage [mkItem ''a'' [], mkItem ''b'' [], mkItem ''p'' []] None))]"

definition exSecond :: upstream where
  "exSecond = staticUpstream
     [(savedTracksUrl,
       ok (mkPage [mkItem ''c'' [], mkItem ''d'' [], mkItem ''a'' [], mkItem ''b'' [],
                   mkItem ''p'' []] None))]"

text \<open>An upstream that serves the same item twice.\<close>

definition exRepeated :: upstream where
  "exRepeated = staticUpstream
     [(savedTracksUrl, ok (mkPage [mkItem ''a'' [], mkItem ''a'' []] None))]"






section \<open>The walkers: boundary detection and failure reporting\<close>

lemma scanItems_takeWhile:
  "scanItems known its acc =
     (acc @ takeWhile (isNew known) its, \<not> list_all (isNew known) its)"
  by (induction its arbitrary: acc) (simp_all add: isNew_def)

lemma loop_done:
  "\<not> (truthy cursor \<and> \<not> found) \<Longrightarrow>
     newSavedTracksLoop fuel up known cursor found acc s = Some (Some acc, s)"
  by (cases fuel) auto

lemma loop_step_served:
  assumes "truthy cursor" "pageServed up s (the cursor) p"
  shows "newSavedTracksLoop (Suc fuel) up known cursor False acc s =
           newSavedTracksLoop fuel up known
             (if list_all (isNew known) (pageItems p) then next_url p else None)
             (\<not> list_all (isNew known) (pageItems p))
             (acc @ takeWhile (isNew known) (pageItems p))
             (snd (urlFetch up (the cursor) s))"
  using assms
  by (cases "urlFetch up (the cursor) s")
     (simp add: pageServed_def pageItems_def scanItems_takeWhile split: option.splits)

lemma loop_step_failed:
  assumes "truthy cursor" "\<not> pageFetchOk up s (the cursor)"
  shows "\<exists>s'. newSavedTracksLoop (Suc fuel) up known cursor False acc s = Some (None, s')"
  using assms
  by (cases "urlFetch up (the cursor) s")
     (auto simp: pageFetchOk_def split: content.splits)

lemma all_done:
  "\<not> truthy cursor \<Longrightarrow> allSavedTracksLoop fuel up cursor acc s = Some (Some acc, s)"
  by (cases fuel) auto

lemma all_step_served:
  assumes "truthy cursor" "pageServed up s (the cursor) p"
  shows "allSavedTracksLoop (Suc fuel) up cursor acc s =
           allSavedTracksLoop fuel up (next_url p) (acc @ pageItems p)
             (snd (urlFetch up (the cursor) s))"
  using assms
  by (cases "urlFetch up (the cursor) s")
     (simp add: pageServed_def pageItems_def split: option.splits)

lemma all_step_failed:
  assumes "truthy cursor" "\<not> pageFetchOk up s (the cursor)"
  shows "\<exists>s'. allSavedTracksLoop (Suc fuel) up cursor acc s = Some (None, s')"
  using assms
  by (cases "urlFetch up (the cursor) s")
     (auto simp: pageFetchOk_def split: content.splits)

declare newSavedTracksLoop.simps [simp del]
declare allSavedTracksLoop.simps [simp del]

lemma fetched_Nil: "fetched s [] = s"
  by (simp add: fetched_def)

lemma fetched_one: "snd (urlFetch up u s) = fetched s [u]"
  by (simp add: fetched_def urlFetch_def)

lemma fetched_Cons: "fetched (snd (urlFetch up u s)) us = fetched s (u # us)"
  by (simp add: fetched_def urlFetch_def)

lemma takeWhile_append_stop:
  "\<not> list_all P xs \<Longrightarrow> takeWhile P (xs @ ys) = takeWhile P xs"
  by (induction xs) simp_all

lemma takeWhile_append_go:
  "list_all P xs \<Longrightarrow> takeWhile P (xs @ ys) = xs @ takeWhile P ys"
  by (induction xs) simp_all

lemma pageFetchOk_served:
  "pageFetchOk up s url = (\<exists>p. pageServed up s url p)"
proof
  assume fine: "pageFetchOk up s url"
  obtain r where r: "fst (urlFetch up url s) = r" by simp
  obtain p where p: "responseBody r = Parsed p"
    using fine r by (cases "responseBody r") (auto simp: pageFetchOk_def)
  have "r = \<lparr>responseCode = 200, responseBody = Parsed p\<rparr>"
    using fine r p by (cases r) (simp add: pageFetchOk_def)
  then show "\<exists>p. pageServed up s url p"
    using fine r by (auto simp: pageServed_def pageFetchOk_def)
next
  assume "\<exists>p. pageServed up s url p"
  then show "pageFetchOk up s url"
    by (auto simp: pageServed_def pageFetchOk_def)
qed

text \<open>
  Along a chain that ends (its last cursor is falsy) or that reaches a page with a known
  item, the loop returns, with enough fuel, the accumulated tracks followed by the items
  before the first known one, after requesting the pages up to the first that holds a
  known item.
\<close>

lemma loop_walk:
  assumes "walk up s cursor ps sEnd cEnd"
    "\<not> truthy cEnd \<or> (\<exists>p\<in>set ps. \<not> list_all (isNew known) (pageItems p))"
    "length ps \<le> fuel"
  shows "newSavedTracksLoop fuel up known cursor False acc s =
           Some (Some (acc @ takeWhile (isNew known) (concat (map pageItems ps))),
                 fetched s (take (pagesNeeded known ps) (cursors cursor ps)))"
  using assms
proof (induction ps arbitrary: fuel s cursor acc)
  case Nil
  then show ?case by (simp add: loop_done fetched_Nil)
next
  case (Cons p ps)
  then obtain f where f: "fuel = Suc f" by (cases fuel) auto
  from Cons.prems have t: "truthy cursor" and sv: "pageServed up s (the cursor) p"
    and w: "walk up (snd (urlFetch up (the cursor) s)) (next_url p) ps sEnd cEnd"
    by simp_all
  show ?case
  proof (cases "list_all (isNew known) (pageItems p)")
    case True
    have "length ps \<le> f" using Cons.prems f by simp
    moreover have "\<not> truthy cEnd \<or> (\<exists>p\<in>set ps. \<not> list_all (isNew known) (pageItems p))"
      using Cons.prems(2) True by auto
    ultimately show ?thesis
      using Cons.IH [OF w] True
      by (simp add: f loop_step_served [OF t sv] takeWhile_append_go fetched_Cons
            list_all_iff)
  next
    case False
    then show ?thesis
      by (simp add: f loop_step_served [OF t sv] takeWhile_append_stop loop_done
            fetched_one)
  qed
qed

lemma all_walk:
  assumes "walk up s cursor ps sEnd cEnd" "\<not> truthy cEnd" "length ps \<le> fuel"
  shows "allSavedTracksLoop fuel up cursor acc s =
           Some (Some (acc @ concat (map pageItems ps)), sEnd)"
  using assms
proof (induction ps arbitrary: fuel s cursor acc)
  case Nil
  then show ?case by (simp add: all_done)
next
  case (Cons p ps)
  then obtain f where f: "fuel = Suc f" by (cases fuel) auto
  from Cons.prems have t: "truthy cursor" and sv: "pageServed up s (the cursor) p"
    and w: "walk up (snd (urlFetch up (the cursor) s)) (next_url p) ps sEnd cEnd"
    by simp_all
  have "length ps \<le> f" using Cons.prems f by simp
  from Cons.IH [OF w Cons.prems(2) this]
  show ?case by (simp add: f all_step_served [OF t sv])
qed

text \<open>A page that fails after a chain of pages without a known item makes the loop return null.\<close>

lemma loop_fail_null:
  assumes "walk up s cursor ps s1 c" "\<forall>p\<in>set ps. \<forall>i\<in>set (pageItems p). isNew known i"
    "truthy c" "\<not> pageFetchOk up s1 (the c)" "length ps < fuel"
  shows "\<exists>s'. newSavedTracksLoop fuel up known cursor False acc s = Some (None, s')"
  using assms
proof (induction ps arbitrary: fuel s cursor acc)
  case Nil
  then obtain f where "fuel = Suc f" by (cases fuel) auto
  with Nil show ?case by (simp add: loop_step_failed)
next
  case (Cons p ps)
  then obtain f where f: "fuel = Suc f" by (cases fuel) auto
  from Cons.prems have t: "truthy cursor" and sv: "pageServed up s (the cursor) p"
    and w: "walk up (snd (urlFetch up (the cursor) s)) (next_url p) ps s1 c"
    and new: "list_all (isNew known) (pageItems p)"
    and rest: "\<forall>p\<in>set ps. \<forall>i\<in>set (pageItems p). isNew known i"
    by (simp_all add: list_all_iff)
  have "length ps < f" using Cons.prems f by simp
  from Cons.IH [OF w rest Cons.prems(3,4) this]
  show ?case using new by (simp add: f loop_step_served [OF t sv])
qed

lemma all_fail_null:
  assumes "walk up s cursor ps s1 c" "truthy c" "\<not> pageFetchOk up s1 (the c)"
    "length ps < fuel"
  shows "\<exists>s'. allSavedTracksLoop fuel up cursor acc s = Some (None, s')"
  using assms
proof (induction ps arbitrary: fuel s cursor acc)
  case Nil
  then obtain f where "fuel = Suc f" by (cases fuel) auto
  with Nil show ?case by (simp add: all_step_failed)
next
  case (Cons p ps)
  then obtain f where f: "fuel = Suc f" by (cases fuel) auto
  from Cons.prems have t: "truthy cursor" and sv: "pageServed up s (the cursor) p"
    and w: "walk up (snd (urlFetch up (the cursor) s)) (next_url p) ps s1 c"
    by simp_all
  have "length ps < f" using Cons.prems f by simp
  from Cons.IH [OF w Cons.prems(2,3) this]
  show ?case by (simp add: f all_step_served [OF t sv])
qed

text \<open>A list returned by the loop comes from a chain of served pages, walked to its end.\<close>

lemma loop_success_walk:
  assumes "newSavedTracksLoop fuel up known cursor False acc s = Some (Some ts, s')"
  shows "\<exists>ps c. walk up s cursor ps s' c \<and> length ps \<le> fuel \<and>
           (\<not> truthy c \<or> (ps \<noteq> [] \<and> \<not> list_all (isNew known) (pageItems (last ps)))) \<and>
           ts = acc @ takeWhile (isNew known) (concat (map pageItems ps))"
  using assms
proof (induction fuel arbitrary: cursor acc s)
  case 0
  then have "\<not> truthy cursor \<and> ts = acc \<and> s' = s"
    by (simp add: newSavedTracksLoop.simps split: if_splits)
  then have "walk up s cursor [] s' cursor \<and> length ([] :: ParsedBody list) \<le> 0 \<and>
      \<not> truthy cursor \<and> ts = acc @ takeWhile (isNew known) (concat (map pageItems []))"
    by simp
  then show ?case by blast
next
  case (Suc fuel)
  show ?case
  proof (cases "truthy cursor")
    case False
    with Suc.prems have "ts = acc \<and> s' = s" by (simp add: loop_done)
    with False have "walk up s cursor [] s' cursor \<and>
        length ([] :: ParsedBody list) \<le> Suc fuel \<and> \<not> truthy cursor \<and>
        ts = acc @ takeWhile (isNew known) (concat (map pageItems []))"
      by simp
    then show ?thesis by blast
  next
    case True
    have "pageFetchOk up s (the cursor)"
    proof (rule ccontr)
      assume "\<not> pageFetchOk up s (the cursor)"
      from loop_step_failed [OF True this, of fuel known acc] Suc.prems show False by auto
    qed
    then obtain p where sv: "pageServed up s (the cursor) p"
      by (auto simp: pageFetchOk_served)
    let ?s1 = "snd (urlFetch up (the cursor) s)"
    show ?thesis
    proof (cases "list_all (isNew known) (pageItems p)")
      case allnew: True
      with Suc.prems
      have "newSavedTracksLoop fuel up known (next_url p) False (acc @ pageItems p) ?s1 =
              Some (Some ts, s')"
        by (simp add: loop_step_served [OF True sv] list_all_iff
              takeWhile_eq_all_conv [THEN iffD2])
      from Suc.IH [OF this] obtain ps c where
        w: "walk up ?s1 (next_url p) ps s' c" and l: "length ps \<le> fuel" and
        e: "\<not> truthy c \<or> (ps \<noteq> [] \<and> \<not> list_all (isNew known) (pageItems (last ps)))" and
        t: "ts = (acc @ pageItems p) @ takeWhile (isNew known) (concat (map pageItems ps))"
        by blast
      have "walk up s cursor (p # ps) s' c" using True sv w by simp
      moreover have "length (p # ps) \<le> Suc fuel" using l by simp
      moreover have "\<not> truthy c \<or>
          (p # ps \<noteq> [] \<and> \<not> list_all (isNew known) (pageItems (last (p # ps))))"
        using e by auto
      moreover have "ts = acc @ takeWhile (isNew known) (concat (map pageItems (p # ps)))"
        using t allnew by (simp add: takeWhile_append_go)
      ultimately show ?thesis by blast
    next
      case known: False
      with Suc.prems have "ts = acc @ takeWhile (isNew known) (pageItems p) \<and> s' = ?s1"
        by (simp add: loop_step_served [OF True sv] loop_done)
      then have "walk up s cursor [p] s' (next_url p)" "length [p] \<le> Suc fuel"
        "[p] \<noteq> [] \<and> \<not> list_all (isNew known) (pageItems (last [p]))"
        "ts = acc @ takeWhile (isNew known) (concat (map pageItems [p]))"
        using True sv known by simp_all
      then show ?thesis by blast
    qed
  qed
qed

lemma all_success_walk:
  assumes "allSavedTracksLoop fuel up cursor acc s = Some (Some ts, s')"
  shows "\<exists>ps c. walk up s cursor ps s' c \<and> \<not> truthy c \<and>
           ts = acc @ concat (map pageItems ps)"
  using assms
proof (induction fuel arbitrary: cursor acc s)
  case 0
  then have "\<not> truthy cursor \<and> ts = acc \<and> s' = s"
    by (simp add: allSavedTracksLoop.simps split: if_splits)
  then have "walk up s cursor [] s' cursor \<and> \<not> truthy cursor \<and>
      ts = acc @ concat (map pageItems [])"
    by simp
  then show ?case by blast
next
  case (Suc fuel)
  show ?case
  proof (cases "truthy cursor")
    case False
    with Suc.prems have "ts = acc \<and> s' = s" by (simp add: all_done)
    with False have "walk up s cursor [] s' cursor \<and> \<not> truthy cursor \<and>
        ts = acc @ concat (map pageItems [])"
      by simp
    then show ?thesis by blast
  next
    case True
    have "pageFetchOk up s (the cursor)"
    proof (rule ccontr)
      assume "\<not> pageFetchOk up s (the cursor)"
      from all_step_failed [OF True this, of fuel acc] Suc.prems show False by auto
    qed
    then obtain p where sv: "pageServed up s (the cursor) p"
      by (auto simp: pageFetchOk_served)
    let ?s1 = "snd (urlFetch up (the cursor) s)"
    from Suc.prems
    have "allSavedTracksLoop fuel up (next_url p) (acc @ pageItems p) ?s1 = Some (Some ts, s')"
      by (simp add: all_step_served [OF True sv])
    from Suc.IH [OF this] obtain ps c where
      w: "walk up ?s1 (next_url p) ps s' c" and e: "\<not> truthy c" and
      t: "ts = (acc @ pageItems p) @ concat (map pageItems ps)"
      by blast
    have "walk up s cursor (p # ps) s' c" using True sv w by simp
    moreover have "ts = acc @ concat (map pageItems (p # ps))" using t by simp
    ultimately show ?thesis using e by blast
  qed
qed

lemmas example_defs = exUp_def exPages_def exRateLimited_def staticUpstream_def ok_def
  failure_def mkPage_def initialSession_def savedTracksUrl_def hasAccess_def urlFetch_def
  truthy_def pageServed_def pageFetchOk_def fetched_def pageItems_def isNew_def

lemma exUp_walk:
  "walk exUp initialSession (Some savedTracksUrl) exPages
     (fetched initialSession [savedTracksUrl, ''p2'', ''p3'']) None"
  by (simp add: example_defs)

text \<open>
  C1. Let the upstream serve, from the first URL, the pages \<open>ps\<close> one after the other,
  up to the end of the collection (the last cursor is falsy) or at least up to a page that
  holds a known item. Then getNewSavedTracks returns, for the set of known ids, exactly
  the items that come before the first known one, in arrival order, and it has requested
  the pages up to and including the first page that holds a known item and no page beyond
  it (\<open>pagesNeeded\<close> of them, by their URLs, in the session's request log). When the
  first item of the first page is known, the result is the empty list and the first page
  is the only request.
\<close>

theorem getNewSavedTracks_stops_at_first_known:
  assumes "walk up s (Some savedTracksUrl) ps sEnd cEnd"
    and "\<not> truthy cEnd \<or> (\<exists>p\<in>set ps. \<not> list_all (isNew known) (pageItems p))"
    and "length ps \<le> fuel"
  shows "getNewSavedTracks fuel up known s =
           Some (Some (takeWhile (isNew known) (concat (map pageItems ps))),
                 fetched s (take (pagesNeeded known ps) (cursors (Some savedTracksUrl) ps)))
         \<and> (\<forall>p rest i its.
               ps = p # rest \<and> pageItems p = i # its \<and> track_id (track i) \<in> known
               \<longrightarrow> getNewSavedTracks fuel up known s =
                     Some (Some [], fetched s [savedTracksUrl]))"
proof -
  have main: "getNewSavedTracks fuel up known s =
           Some (Some (takeWhile (isNew known) (concat (map pageItems ps))),
                 fetched s (take (pagesNeeded known ps) (cursors (Some savedTracksUrl) ps)))"
    using loop_walk [OF assms, of "[]"] by (simp add: getNewSavedTracks_def)
  have "getNewSavedTracks fuel up known s = Some (Some [], fetched s [savedTracksUrl])"
    if "ps = p # rest" "pageItems p = i # its" "track_id (track i) \<in> known" for p rest i its
    using main that by (simp add: isNew_def)
  with main show ?thesis by blast
qed

text \<open>
  The items n1, n2, n3, k1, k2 on three pages with k1 and k2 known: the result is
  n1, n2, n3 and the third page is never requested. With n1 known, the result is empty
  after one request.
\<close>

theorem getNewSavedTracks_stops_at_first_known_witness:
  "walk exUp initialSession (Some savedTracksUrl) exPages
     (fetched initialSession [savedTracksUrl, ''p2'', ''p3'']) None \<and>
   \<not> truthy None \<and> length exPages \<le> 3 \<and>
   getNewSavedTracks 3 exUp {''k1'', ''k2''} initialSession =
     Some (Some [mkItem ''n1'' [], mkItem ''n2'' [], mkItem ''n3'' []],
           fetched initialSession [savedTracksUrl, ''p2'']) \<and>
   getNewSavedTracks 3 exUp {''n1''} initialSession =
     Some (Some [], fetched initialSession [savedTracksUrl])"
proof -
  have t: "\<not> truthy None" by (simp add: truthy_def)
  have l: "length exPages \<le> 3" by (simp add: exPages_def)
  have e1: "\<not> truthy None \<or>
      (\<exists>p\<in>set exPages. \<not> list_all (isNew {''k1'', ''k2''}) (pageItems p))"
    using t by simp
  have e2: "\<not> truthy None \<or> (\<exists>p\<in>set exPages. \<not> list_all (isNew {''n1''}) (pageItems p))"
    using t by simp
  show ?thesis
    using exUp_walk t l
      getNewSavedTracks_stops_at_first_known [OF exUp_walk e1 l]
      getNewSavedTracks_stops_at_first_known [OF exUp_walk e2 l]
    by (simp add: exPages_def mkPage_def pageItems_def isNew_def mkItem_def fetched_def)
qed

text \<open>
  C8. Both walkers tell a failure from a completed walk by their result. If, after a chain
  of served pages (for getNewSavedTracks: without a known item), the next request is not
  answered 200 with a parsable body under a good token (no access, 401, 429, any other
  status, a body that does not parse), the walker returns null. If a walker returns a
  list, then every page it requested was served, the walk ended because the last cursor
  was falsy or (getNewSavedTracks) because the last page holds a known item, and the list
  holds all the items of those pages (for getNewSavedTracks: those before the first known
  one).
\<close>

theorem walkers_null_on_failure:
  "(walk up s (Some savedTracksUrl) ps s1 c \<and>
      (\<forall>p\<in>set ps. \<forall>i\<in>set (pageItems p). isNew known i) \<and>
      truthy c \<and> \<not> pageFetchOk up s1 (the c) \<and> length ps < fuel
      \<longrightarrow> (\<exists>s'. getNewSavedTracks fuel up known s = Some (None, s')))
   \<and> (walk up s (Some savedTracksUrl) ps s1 c \<and>
        truthy c \<and> \<not> pageFetchOk up s1 (the c) \<and> length ps < fuel
      \<longrightarrow> (\<exists>s'. getAllMySavedTracks fuel up s = Some (None, s')))
   \<and> (getNewSavedTracks fuel up known s = Some (Some ts, s')
      \<longrightarrow> (\<exists>qs c'. walk up s (Some savedTracksUrl) qs s' c' \<and>
             (\<not> truthy c' \<or> (qs \<noteq> [] \<and> \<not> list_all (isNew known) (pageItems (last qs)))) \<and>
             ts = takeWhile (isNew known) (concat (map pageItems qs))))
   \<and> (getAllMySavedTracks fuel up s = Some (Some ts, s')
      \<longrightarrow> (\<exists>qs c'. walk up s (Some savedTracksUrl) qs s' c' \<and> \<not> truthy c' \<and>
             ts = concat (map pageItems qs)))"
proof (intro conjI impI)
  assume "walk up s (Some savedTracksUrl) ps s1 c \<and>
      (\<forall>p\<in>set ps. \<forall>i\<in>set (pageItems p). isNew known i) \<and>
      truthy c \<and> \<not> pageFetchOk up s1 (the c) \<and> length ps < fuel"
  then show "\<exists>s'. getNewSavedTracks fuel up known s = Some (None, s')"
    using loop_fail_null [of up s "Some savedTracksUrl" ps s1 c known fuel "[]"]
    by (simp add: getNewSavedTracks_def)
next
  assume "walk up s (Some savedTracksUrl) ps s1 c \<and>
        truthy c \<and> \<not> pageFetchOk up s1 (the c) \<and> length ps < fuel"
  then show "\<exists>s'. getAllMySavedTracks fuel up s = Some (None, s')"
    using all_fail_null [of up s "Some savedTracksUrl" ps s1 c fuel "[]"]
    by (simp add: getAllMySavedTracks_def)
next
  assume "getNewSavedTracks fuel up known s = Some (Some ts, s')"
  then show "\<exists>qs c'. walk up s (Some savedTracksUrl) qs s' c' \<and>
             (\<not> truthy c' \<or> (qs \<noteq> [] \<and> \<not> list_all (isNew known) (pageItems (last qs)))) \<and>
             ts = takeWhile (isNew known) (concat (map pageItems qs))"
    using loop_success_walk [of fuel up known "Some savedTracksUrl" "[]" s ts s']
    unfolding getNewSavedTracks_def append_Nil by blast
next
  assume "getAllMySavedTracks fuel up s = Some (Some ts, s')"
  then show "\<exists>qs c'. walk up s (Some savedTracksUrl) qs s' c' \<and> \<not> truthy c' \<and>
             ts = concat (map pageItems qs)"
    using all_success_walk [of fuel up "Some savedTracksUrl" "[]" s ts s']
    by (simp add: getAllMySavedTracks_def)
qed

text \<open>
  With the second page answered 429, both walkers return null although the first page
  gave two new items. On the three served pages, both return lists, and each list comes
  with its chain.
\<close>

theorem walkers_null_on_failure_witness:
  "(\<exists>s'. getNewSavedTracks 5 exRateLimited {''k1''} initialSession = Some (None, s')) \<and>
   (\<exists>s'. getAllMySavedTracks 5 exRateLimited initialSession = Some (None, s')) \<and>
   getNewSavedTracks 5 exUp {''k1''} initialSession =
     Some (Some [mkItem ''n1'' [], mkItem ''n2'' [], mkItem ''n3'' []],
           fetched initialSession [savedTracksUrl, ''p2'']) \<and>
   (\<exists>qs c'. walk exUp initialSession (Some savedTracksUrl) qs
               (fetched initialSession [savedTracksUrl, ''p2'']) c' \<and>
      (\<not> truthy c' \<or> (qs \<noteq> [] \<and> \<not> list_all (isNew {''k1''}) (pageItems (last qs)))) \<and>
      [mkItem ''n1'' [], mkItem ''n2'' [], mkItem ''n3'' []] =
        takeWhile (isNew {''k1''}) (concat (map pageItems qs))) \<and>
   getAllMySavedTracks 5 exUp initialSession =
     Some (Some (concat (map pageItems exPages)),
           fetched initialSession [savedTracksUrl, ''p2'', ''p3'']) \<and>
   (\<exists>qs c'. walk exUp initialSession (Some savedTracksUrl) qs
               (fetched initialSession [savedTracksUrl, ''p2'', ''p3'']) c' \<and> \<not> truthy c' \<and>
      concat (map pageItems exPages) = concat (map pageItems qs))"
proof -
  let ?p1 = "mkPage [mkItem ''n1'' [], mkItem ''n2'' []] (Some ''p2'')"
  let ?s1 = "fetched initialSession [savedTracksUrl]"
  let ?new = "[mkItem ''n1'' [], mkItem ''n2'' [], mkItem ''n3'' []]"
  let ?s2 = "fetched initialSession [savedTracksUrl, ''p2'']"
  let ?s3 = "fetched initialSession [savedTracksUrl, ''p2'', ''p3'']"
  have h1: "walk exRateLimited initialSession (Some savedTracksUrl) [?p1] ?s1 (Some ''p2'') \<and>
      (\<forall>p\<in>set [?p1]. \<forall>i\<in>set (pageItems p). isNew {''k1''} i) \<and>
      truthy (Some ''p2'') \<and> \<not> pageFetchOk exRateLimited ?s1 (the (Some ''p2'')) \<and>
      length [?p1] < 5"
    by (simp add: example_defs mkItem_def)
  then have h2: "walk exRateLimited initialSession (Some savedTracksUrl) [?p1] ?s1 (Some ''p2'') \<and>
      truthy (Some ''p2'') \<and> \<not> pageFetchOk exRateLimited ?s1 (the (Some ''p2'')) \<and>
      length [?p1] < 5"
    by blast
  note failing = walkers_null_on_failure [of exRateLimited initialSession "[?p1]" ?s1
      "Some ''p2''" "{''k1''}" 5 "[]" initialSession]
  have c1: "\<exists>s'. getNewSavedTracks 5 exRateLimited {''k1''} initialSession = Some (None, s')"
    by (rule failing [THEN conjunct1, THEN mp, OF h1])
  have c2: "\<exists>s'. getAllMySavedTracks 5 exRateLimited initialSession = Some (None, s')"
    by (rule failing [THEN conjunct2, THEN conjunct1, THEN mp, OF h2])
  have a: "getNewSavedTracks 5 exUp {''k1''} initialSession = Some (Some ?new, ?s2)"
    using loop_walk [of exUp initialSession "Some savedTracksUrl" exPages _ None "{''k1''}" 5 "[]"]
      exUp_walk
    by (simp add: getNewSavedTracks_def exPages_def mkPage_def pageItems_def isNew_def
          mkItem_def fetched_def truthy_def)
  have b: "getAllMySavedTracks 5 exUp initialSession =
             Some (Some (concat (map pageItems exPages)), ?s3)"
    using all_walk [OF exUp_walk, of 5 "[]"]
    by (simp add: getAllMySavedTracks_def exPages_def truthy_def)
  have c3: "\<exists>qs c'. walk exUp initialSession (Some savedTracksUrl) qs ?s2 c' \<and>
      (\<not> truthy c' \<or> (qs \<noteq> [] \<and> \<not> list_all (isNew {''k1''}) (pageItems (last qs)))) \<and>
      ?new = takeWhile (isNew {''k1''}) (concat (map pageItems qs))"
    by (rule walkers_null_on_failure [of exUp initialSession "[]" initialSession None
          "{''k1''}" 5 ?new ?s2, THEN conjunct2, THEN conjunct2, THEN conjunct1, THEN mp, OF a])
  have c4: "\<exists>qs c'. walk exUp initialSession (Some savedTracksUrl) qs ?s3 c' \<and> \<not> truthy c' \<and>
      concat (map pageItems exPages) = concat (map pageItems qs)"
    by (rule walkers_null_on_failure [of exUp initialSession "[]" initialSession None
          "{}" 5 "concat (map pageItems exPages)" ?s3,
          THEN conjunct2, THEN conjunct2, THEN conjunct2, THEN mp, OF b])
  show ?thesis by (intro conjI c1 c2 a c3 b c4)
qed

section \<open>Genre enrichment: lookups, chunks and the genre field\<close>

declare chunksOf.simps [simp del]
declare fetchGenresLoop.simps [simp del]

lemma getArtistsDetails_requests:
  assumes "ids \<noteq> []"
  shows "requests (snd (getArtistsDetails up (Some ids) s)) =
           requests s @ (if hasAccess up s then [artistsUrl (take 50 ids)] else [])"
  using assms
  by (cases "urlFetch up (apiBase @ ''artists?ids='' @ join '','' (take 50 ids)) s")
     (auto simp: getArtistsDetails_def fetchSpotifyApi_def artistsUrl_def Let_def
        urlFetch_def resetSpotifyService_def
        split: option.splits content.splits prod.splits)

text \<open>
  C10. Called with no id list or with an empty one, getArtistsDetails returns the empty
  array, not null, and leaves the session as it was: no request is made. Called with more
  than 50 ids, it does what it does on the first 50 alone. The one request a non-empty
  call makes (when the token is good) names the first 50 ids and no other.
\<close>

theorem getArtistsDetails_interface:
  "getArtistsDetails up None s = (Some [], s) \<and>
   getArtistsDetails up (Some []) s = (Some [], s) \<and>
   (50 < length ids \<longrightarrow>
      getArtistsDetails up (Some ids) s = getArtistsDetails up (Some (take 50 ids)) s) \<and>
   (ids \<noteq> [] \<longrightarrow>
      requests (snd (getArtistsDetails up (Some ids) s)) =
        requests s @ (if hasAccess up s then [artistsUrl (take 50 ids)] else []))"
  using getArtistsDetails_requests [of ids up s]
  by (simp add: getArtistsDetails_def)

lemma exUp_hasAccess: "hasAccess exUp initialSession"
  by (simp add: hasAccess_def exUp_def staticUpstream_def initialSession_def)

theorem getArtistsDetails_interface_witness:
  "getArtistsDetails exUp None initialSession = (Some [], initialSession) \<and>
   getArtistsDetails exUp (Some []) initialSession = (Some [], initialSession) \<and>
   50 < length (take 60 exIds) \<and>
   getArtistsDetails exUp (Some (take 60 exIds)) initialSession =
     getArtistsDetails exUp (Some (take 50 exIds)) initialSession \<and>
   requests (snd (getArtistsDetails exUp (Some (take 60 exIds)) initialSession)) =
     [artistsUrl (take 50 exIds)]"
proof -
  have l: "50 < length (take 60 exIds)" by (simp add: exIds_def)
  have n: "take 60 exIds \<noteq> []" using l by auto
  have t: "take 50 (take 60 exIds) = take 50 exIds" by simp
  have r: "requests initialSession = []" by (simp add: initialSession_def)
  note T = getArtistsDetails_interface [of exUp initialSession "take 60 exIds"]
  have a: "getArtistsDetails exUp None initialSession = (Some [], initialSession)"
    using T by blast
  have b: "getArtistsDetails exUp (Some []) initialSession = (Some [], initialSession)"
    using T by blast
  have c: "getArtistsDetails exUp (Some (take 60 exIds)) initialSession =
           getArtistsDetails exUp (Some (take 50 (take 60 exIds))) initialSession"
    using T l by blast
  have e: "requests (snd (getArtistsDetails exUp (Some (take 60 exIds)) initialSession)) =
           requests initialSession @
           (if hasAccess exUp initialSession then [artistsUrl (take 50 (take 60 exIds))] else [])"
    using T n by blast
  show ?thesis
    using a b l c e exUp_hasAccess by (simp add: r)
qed

lemma chunksOf_Nil: "chunksOf n [] = []"
  by (simp add: chunksOf.simps)

lemma chunksOf_step:
  "0 < n \<Longrightarrow> xs \<noteq> [] \<Longrightarrow> chunksOf n xs = take n xs # chunksOf n (drop n xs)"
  by (subst chunksOf.simps) simp

lemma concat_chunksOf: "0 < n \<Longrightarrow> concat (chunksOf n xs) = xs"
proof (induction n xs rule: chunksOf.induct)
  case (1 n xs)
  then show ?case by (cases "xs = []") (simp_all add: chunksOf_Nil chunksOf_step)
qed

lemma chunksOf_sizes:
  "c \<in> set (chunksOf n xs) \<Longrightarrow> 0 < length c \<and> length c \<le> n"
proof (induction n xs rule: chunksOf.induct)
  case (1 n xs)
  show ?case
  proof (cases "n = 0 \<or> xs = []")
    case True
    with "1.prems" show ?thesis by (simp add: chunksOf.simps)
  next
    case False
    with "1.prems" have "c = take n xs \<or> c \<in> set (chunksOf n (drop n xs))"
      by (simp add: chunksOf_step)
    with False "1.IH" show ?thesis by auto
  qed
qed

lemma chunksOf_subset:
  "c \<in> set (chunksOf n xs) \<Longrightarrow> set c \<subseteq> set xs"
proof (induction n xs rule: chunksOf.induct)
  case (1 n xs)
  show ?case
  proof (cases "n = 0 \<or> xs = []")
    case True
    with "1.prems" show ?thesis by (simp add: chunksOf.simps)
  next
    case False
    with "1.prems" have "c = take n xs \<or> c \<in> set (chunksOf n (drop n xs))"
      by (simp add: chunksOf_step)
    with False "1.IH" show ?thesis
      by (auto dest: in_set_takeD in_set_dropD)
  qed
qed

lemma chunksOf_disjoint:
  "distinct xs \<Longrightarrow> i < j \<Longrightarrow> j < length (chunksOf n xs) \<Longrightarrow>
     set (chunksOf n xs ! i) \<inter> set (chunksOf n xs ! j) = {}"
proof (induction n xs arbitrary: i j rule: chunksOf.induct)
  case (1 n xs)
  show ?case
  proof (cases "n = 0 \<or> xs = []")
    case True
    with "1.prems" show ?thesis by (simp add: chunksOf.simps)
  next
    case False
    then have step: "chunksOf n xs = take n xs # chunksOf n (drop n xs)"
      by (simp add: chunksOf_step)
    obtain j' where j': "j = Suc j'" using "1.prems"(2) by (cases j) auto
    have jlen: "j' < length (chunksOf n (drop n xs))" using "1.prems"(3) step j' by simp
    show ?thesis
    proof (cases i)
      case 0
      have "chunksOf n (drop n xs) ! j' \<in> set (chunksOf n (drop n xs))"
        using jlen by simp
      then have "set (chunksOf n (drop n xs) ! j') \<subseteq> set (drop n xs)"
        by (rule chunksOf_subset)
      moreover have "set (take n xs) \<inter> set (drop n xs) = {}"
        using "1.prems"(1) by (rule set_take_disj_set_drop_if_distinct) simp
      ultimately show ?thesis using 0 j' step by auto
    next
      case (Suc i')
      have "set (chunksOf n (drop n xs) ! i') \<inter> set (chunksOf n (drop n xs) ! j') = {}"
        using "1.IH" [OF False, of i' j'] "1.prems" Suc j' jlen by simp
      then show ?thesis using Suc j' step by simp
    qed
  qed
qed

lemma chunksOf_120:
  assumes "length xs = 120"
  shows "map length (chunksOf 50 xs) = [50, 50, 20]"
proof -
  have a: "chunksOf 50 xs = take 50 xs # chunksOf 50 (drop 50 xs)"
    using assms by (intro chunksOf_step) auto
  have b: "chunksOf 50 (drop 50 xs) = take 50 (drop 50 xs) # chunksOf 50 (drop 100 xs)"
    using assms chunksOf_step [of 50 "drop 50 xs"] by auto
  have c: "chunksOf 50 (drop 100 xs) = take 50 (drop 100 xs) # chunksOf 50 (drop 150 xs)"
    using assms chunksOf_step [of 50 "drop 100 xs"] by auto
  have d: "chunksOf 50 (drop 150 xs) = []"
    using assms by (simp add: chunksOf_Nil)
  show ?thesis using assms by (simp add: a b c d chunksOf_Nil)
qed

lemma fetchGenresLoop_chunks:
  "fetchGenresLoop up ids i m s =
     fold (lookupChunk up) (chunksOf chunkSize (drop i ids)) (m, s)"
proof (induction "length ids - i" arbitrary: i m s rule: less_induct)
  case less
  show ?case
  proof (cases "i < length ids")
    case False
    then show ?thesis by (simp add: fetchGenresLoop.simps chunksOf_Nil)
  next
    case True
    then have step: "chunksOf chunkSize (drop i ids) =
        slice ids i (i + chunkSize) # chunksOf chunkSize (drop (i + chunkSize) ids)"
      by (simp add: chunksOf_step chunkSize_def slice_def add.commute)
    have smaller: "length ids - (i + chunkSize) < length ids - i"
      using True by (simp add: chunkSize_def)
    note IH = less [OF smaller]
    show ?thesis
      using True
      by (subst fetchGenresLoop.simps)
         (simp add: step lookupChunk_def IH split: prod.splits option.splits)
  qed
qed

lemma lookupChunk_requests:
  assumes "keepsAccess up" "\<not> revoked s" "chunk \<noteq> []" "length chunk \<le> 50"
  shows "requests (snd (lookupChunk up chunk (m, s))) = requests s @ [artistsUrl chunk] \<and>
         \<not> revoked (snd (lookupChunk up chunk (m, s)))"
  using assms
  by (auto simp: lookupChunk_def getArtistsDetails_def fetchSpotifyApi_def artistsUrl_def
        Let_def urlFetch_def keepsAccess_def hasAccess_def
        split: option.splits content.splits prod.splits)

lemma fold_lookupChunk_requests:
  assumes "keepsAccess up" "\<not> revoked s" "\<forall>c\<in>set cs. c \<noteq> [] \<and> length c \<le> 50"
  shows "requests (snd (fold (lookupChunk up) cs (m, s))) = requests s @ map artistsUrl cs"
  using assms
proof (induction cs arbitrary: m s)
  case Nil
  then show ?case by simp
next
  case (Cons c cs)
  obtain m1 s1 where l: "lookupChunk up c (m, s) = (m1, s1)"
    by (cases "lookupChunk up c (m, s)")
  have one: "requests s1 = requests s @ [artistsUrl c] \<and> \<not> revoked s1"
    using lookupChunk_requests [of up s c m] Cons.prems l by simp
  have "requests (snd (fold (lookupChunk up) cs (m1, s1))) = requests s1 @ map artistsUrl cs"
    using Cons.IH [of s1 m1] Cons.prems one by simp
  then show ?case using l one by simp
qed

text \<open>
  C6. The loop over the unique artist ids is one getArtistsDetails call per chunk of the
  partition into consecutive chunks of 50, in order. The chunks cover the ids, none is
  empty or longer than 50, they are pairwise disjoint when the ids are pairwise different,
  and 120 ids give three chunks of 50, 50 and 20. While the token stays good (and no
  answer is 401) each call is one request, for its chunk's ids.
\<close>

theorem genre_lookups_by_chunks:
  "fetchGenresLoop up ids 0 m s = fold (lookupChunk up) (chunksOf chunkSize ids) (m, s) \<and>
   concat (chunksOf chunkSize ids) = ids \<and>
   (\<forall>c\<in>set (chunksOf chunkSize ids). 0 < length c \<and> length c \<le> 50) \<and>
   (distinct ids \<longrightarrow>
      (\<forall>i j. i < j \<and> j < length (chunksOf chunkSize ids) \<longrightarrow>
         set (chunksOf chunkSize ids ! i) \<inter> set (chunksOf chunkSize ids ! j) = {})) \<and>
   (length ids = 120 \<longrightarrow> map length (chunksOf chunkSize ids) = [50, 50, 20]) \<and>
   (keepsAccess up \<and> \<not> revoked s \<longrightarrow>
      requests (snd (fetchGenresLoop up ids 0 m s)) =
        requests s @ map artistsUrl (chunksOf chunkSize ids))"
proof -
  have sizes: "\<forall>c\<in>set (chunksOf chunkSize ids). 0 < length c \<and> length c \<le> 50"
    using chunksOf_sizes [of _ chunkSize ids] by (auto simp: chunkSize_def)
  have loop: "fetchGenresLoop up ids 0 m s =
      fold (lookupChunk up) (chunksOf chunkSize ids) (m, s)"
    using fetchGenresLoop_chunks [of up ids 0 m s] by simp
  have reqs: "requests (snd (fetchGenresLoop up ids 0 m s)) =
        requests s @ map artistsUrl (chunksOf chunkSize ids)"
    if "keepsAccess up" "\<not> revoked s"
    using fold_lookupChunk_requests [of up s "chunksOf chunkSize ids" m] that sizes loop
    by auto
  show ?thesis
    using loop sizes reqs concat_chunksOf [of chunkSize ids] chunksOf_disjoint [of ids _ _ chunkSize]
      chunksOf_120 [of ids]
    by (simp add: chunkSize_def)
qed

lemma staticUpstream_keepsAccess:
  "\<forall>r\<in>set (map snd table). responseCode r \<noteq> 401 \<Longrightarrow> keepsAccess (staticUpstream table)"
  by (auto simp: keepsAccess_def staticUpstream_def failure_def split: option.splits
      dest!: map_of_SomeD)

lemma exUp_keepsAccess: "keepsAccess exUp"
  unfolding exUp_def by (rule staticUpstream_keepsAccess) (simp add: exPages_def ok_def)

lemma exChunks:
  "chunksOf chunkSize (take 120 exIds) =
     [take 50 exIds, take 50 (drop 50 exIds), take 20 (drop 100 exIds)]"
  by (simp add: chunksOf.simps chunkSize_def exIds_def)

theorem genre_lookups_by_chunks_witness:
  "distinct (take 120 exIds) \<and> length (take 120 exIds) = 120 \<and>
   keepsAccess exUp \<and> \<not> revoked initialSession \<and>
   map length (chunksOf chunkSize (take 120 exIds)) = [50, 50, 20] \<and>
   set (take 50 exIds) \<inter> set (take 50 (drop 50 exIds)) = {} \<and>
   requests (snd (fetchGenresLoop exUp (take 120 exIds) 0 Map.empty initialSession)) =
     [artistsUrl (take 50 exIds), artistsUrl (take 50 (drop 50 exIds)),
      artistsUrl (take 20 (drop 100 exIds))]"
proof -
  have d: "distinct (take 120 exIds)" by (simp add: exIds_def)
  have l: "length (take 120 exIds) = 120" by (simp add: exIds_def)
  have r: "\<not> revoked initialSession" by (simp add: initialSession_def)
  have i: "requests initialSession = []" by (simp add: initialSession_def)
  note T = genre_lookups_by_chunks [of exUp "take 120 exIds" Map.empty initialSession]
  have a: "map length (chunksOf chunkSize (take 120 exIds)) = [50, 50, 20]"
    using T l by blast
  have "(0::nat) < 1 \<and> 1 < length (chunksOf chunkSize (take 120 exIds))"
    by (simp add: exChunks)
  then have b: "set (chunksOf chunkSize (take 120 exIds) ! 0) \<inter>
           set (chunksOf chunkSize (take 120 exIds) ! 1) = {}"
    using T d by blast
  have c: "requests (snd (fetchGenresLoop exUp (take 120 exIds) 0 Map.empty initialSession)) =
        requests initialSession @ map artistsUrl (chunksOf chunkSize (take 120 exIds))"
    using T exUp_keepsAccess r by blast
  show ?thesis
    using d l exUp_keepsAccess r a b c by (simp add: exChunks i)
qed

lemma set_firstSeen: "set (firstSeen xs) = set xs"
  by (induction xs rule: firstSeen.induct) auto

lemma distinct_firstSeen: "distinct (firstSeen xs)"
  by (induction xs rule: firstSeen.induct) (auto simp: set_firstSeen)

lemma firstSeen_filter: "firstSeen (filter P xs) = filter P (firstSeen xs)"
proof (induction xs rule: firstSeen.induct)
  case 1
  show ?case by simp
next
  case (2 x xs)
  have n: "filter (\<lambda>y. y \<noteq> x \<and> P y) xs = filter P xs" if "\<not> P x"
    using that by (intro filter_cong) auto
  show ?case
  proof (cases "P x")
    case True
    with 2 show ?thesis by (simp add: conj_commute)
  next
    case False
    with 2 n show ?thesis by simp
  qed
qed

lemma firstSeen_append:
  "firstSeen (xs @ ys) = firstSeen xs @ firstSeen (filter (\<lambda>y. y \<notin> set xs) ys)"
proof (induction xs arbitrary: ys rule: firstSeen.induct)
  case 1
  show ?case by simp
next
  case (2 x xs)
  have "filter (\<lambda>y. y \<noteq> x \<and> y \<notin> set (filter (\<lambda>y. y \<noteq> x) xs)) ys =
        filter (\<lambda>y. y \<noteq> x \<and> y \<notin> set xs) ys"
    by (intro filter_cong) auto
  with 2 [of "filter (\<lambda>y. y \<noteq> x) ys"] show ?case by simp
qed

lemma fold_setAdd:
  "fold setAdd xs acc = acc @ firstSeen (filter (\<lambda>x. x \<notin> set acc) xs)"
proof (induction xs arbitrary: acc)
  case Nil
  show ?case by simp
next
  case (Cons x xs)
  show ?case
  proof (cases "x \<in> set acc")
    case True
    with Cons [of acc] show ?thesis by (simp add: setAdd_def)
  next
    case False
    have "filter (\<lambda>y. y \<noteq> x \<and> y \<notin> set acc) xs = filter (\<lambda>y. y \<notin> set acc \<and> y \<noteq> x) xs"
      by (intro filter_cong) auto
    with False Cons [of "acc @ [x]"] show ?thesis by (simp add: setAdd_def)
  qed
qed

lemma fold_artist_genres:
  "fold (\<lambda>artist acc. case gm (artist_id artist) of Some gs \<Rightarrow> fold setAdd gs acc | None \<Rightarrow> acc)
        as acc =
   acc @ firstSeen (filter (\<lambda>g. g \<notin> set acc) (concat (map (genresOf gm) as)))"
proof (induction as arbitrary: acc)
  case Nil
  show ?case by simp
next
  case (Cons a as)
  let ?g = "genresOf gm a"
  let ?rest = "concat (map (genresOf gm) as)"
  let ?acc' = "acc @ firstSeen (filter (\<lambda>g. g \<notin> set acc) ?g)"
  have one: "(case gm (artist_id a) of Some gs \<Rightarrow> fold setAdd gs acc | None \<Rightarrow> acc) = ?acc'"
    by (simp add: genresOf_def fold_setAdd split: option.splits)
  have two: "filter (\<lambda>g. g \<notin> set ?acc') ?rest =
             filter (\<lambda>y. y \<notin> set (filter (\<lambda>g. g \<notin> set acc) ?g)) (filter (\<lambda>g. g \<notin> set acc) ?rest)"
    unfolding filter_filter by (intro filter_cong) (auto simp: set_firstSeen)
  have "fold (\<lambda>artist acc. case gm (artist_id artist) of Some gs \<Rightarrow> fold setAdd gs acc | None \<Rightarrow> acc)
          (a # as) acc =
        ?acc' @ firstSeen (filter (\<lambda>g. g \<notin> set ?acc') ?rest)"
    using Cons [of ?acc'] by (simp only: fold_simps o_apply one)
  also have "\<dots> = acc @ firstSeen (filter (\<lambda>g. g \<notin> set acc) (?g @ ?rest))"
    by (simp only: two filter_append firstSeen_append [of "filter (\<lambda>g. g \<notin> set acc) ?g"] append_assoc)
  finally show ?case by simp
qed

lemma trackGenres_firstSeen:
  "trackGenres gm t = firstSeen (concat (map (genresOf gm) (artists t)))"
  by (simp add: trackGenres_def fold_artist_genres)

text \<open>
  C9. The genres of a track are the genre lists its artists have in the index, one after
  the other in the order of the artists, with each genre kept at its first occurrence
  only: pairwise different, and as a set the union of the artists' genres. The row's
  genre field (column 7) is that list joined with a comma and a blank.
\<close>

theorem genre_field_is_union:
  "trackGenres gm t = firstSeen (concat (map (genresOf gm) (artists t))) \<and>
   distinct (trackGenres gm t) \<and>
   set (trackGenres gm t) = (\<Union>a\<in>set (artists t). set (genresOf gm a)) \<and>
   newRow gm item ! 6 = join '', '' (trackGenres gm (track item))"
  by (simp add: trackGenres_firstSeen distinct_firstSeen set_firstSeen newRow_def Let_def)

text \<open>Artists with the genres rock and rock, pop: the field reads rock, pop.\<close>

theorem genre_field_is_union_witness:
  "trackGenres [''x'' \<mapsto> [''rock''], ''y'' \<mapsto> [''rock'', ''pop'']]
      (track (mkItem ''t'' [''x'', ''y''])) = [''rock'', ''pop''] \<and>
   newRow [''x'' \<mapsto> [''rock''], ''y'' \<mapsto> [''rock'', ''pop'']] (mkItem ''t'' [''x'', ''y'']) ! 6 =
     ''rock, pop''"
  using genre_field_is_union [of "[''x'' \<mapsto> [''rock''], ''y'' \<mapsto> [''rock'', ''pop'']]"
      "track (mkItem ''t'' [''x'', ''y''])" "mkItem ''t'' [''x'', ''y'']"]
  by (simp add: mkItem_def mkArtist_def genresOf_def)

section \<open>The sync run: what it writes and what it leaves\<close>

text \<open>Inserting blank rows below the first row and writing a block into them.\<close>

lemma writeRow_inside:
  "writeRow (Suc (length pre)) vals (pre @ old # post) = pre @ writeCells vals old # post"
  by (simp add: writeRow_def)

lemma setValues_block:
  "setValues (Suc (length pre)) rows (pre @ replicate (length rows) [] @ post) =
     pre @ rows @ post"
proof (induction rows arbitrary: pre)
  case Nil
  show ?case by simp
next
  case (Cons v vs)
  have "setValues (Suc (length pre)) (v # vs) (pre @ replicate (length (v # vs)) [] @ post) =
        setValues (Suc (length (pre @ [v]))) vs ((pre @ [v]) @ replicate (length vs) [] @ post)"
    using writeRow_inside [of pre v "[]" "replicate (length vs) [] @ post"]
    by (simp add: writeCells_def)
  also have "\<dots> = (pre @ [v]) @ vs @ post" by (rule Cons.IH)
  finally show ?case by simp
qed

lemma prepareSheet_rows: "prepareSheet st = firstRow st # dataRows st"
proof (cases st)
  case (Sheet g)
  show ?thesis
  proof (cases g)
    case Nil
    with Sheet show ?thesis
      by (simp add: prepareSheet_def firstRow_def dataRows_def appendRow_def rowAt_def)
  next
    case (Cons r rs)
    with Sheet show ?thesis
      by (cases rs)
         (simp_all add: prepareSheet_def firstRow_def dataRows_def rowAt_def writeRow_def)
  qed
qed (simp_all add: prepareSheet_def firstRow_def dataRows_def appendRow_def rowAt_def)

lemma insert_block:
  "setValues 2 rows (insertRowsAfter 1 (length rows) (prepareSheet st)) =
     firstRow st # rows @ dataRows st"
  using setValues_block [of "[firstRow st]" rows "dataRows st"]
  by (simp add: prepareSheet_rows insertRowsAfter_def numeral_2_eq_2)

text \<open>A run that finds new tracks writes their rows; every run is one of five cases.\<close>

lemma sync_inserts:
  assumes "isSpotifyAuthorized up initialSession" "st \<noteq> NoSpreadsheet"
    "newTracksOf fuel up st = Some (t # ts, s1)"
  shows "updateLikedSongsSheet fuel up st =
           Some (Sheet (firstRow st # newRowsOf up (t # ts, s1) @ dataRows st),
                 Inserted (Suc (length ts)))"
  using assms insert_block [of "newRowsOf up (t # ts, s1)" st]
  by (cases st)
     (auto simp: updateLikedSongsSheet_def newTracksOf_def newRowsOf_def Let_def
        split: option.splits prod.splits)

lemma sync_cases:
  assumes "updateLikedSongsSheet fuel up st = Some (st', out)"
  shows "(st' = st \<and> out = NotAuthorized \<and> \<not> isSpotifyAuthorized up initialSession) \<or>
         (st' = st \<and> out = NoActiveSpreadsheet \<and> st = NoSpreadsheet) \<or>
         (st' = st \<and> out = FetchFailed \<and>
            (\<exists>s1. getNewSavedTracks fuel up (existingTrackIdsOf st) initialSession = Some (None, s1))) \<or>
         (st' = st \<and> out = NoNewSongs \<and> (\<exists>s1. newTracksOf fuel up st = Some ([], s1))) \<or>
         (\<exists>t ts s1. isSpotifyAuthorized up initialSession \<and> st \<noteq> NoSpreadsheet \<and>
            newTracksOf fuel up st = Some (t # ts, s1) \<and>
            st' = Sheet (firstRow st # newRowsOf up (t # ts, s1) @ dataRows st) \<and>
            out = Inserted (Suc (length ts)))"
proof (cases "isSpotifyAuthorized up initialSession")
  case False
  with assms show ?thesis by (simp add: updateLikedSongsSheet_def)
next
  case auth: True
  show ?thesis
  proof (cases "st = NoSpreadsheet")
    case True
    with assms auth show ?thesis by (simp add: updateLikedSongsSheet_def)
  next
    case False
    show ?thesis
    proof (cases "getNewSavedTracks fuel up (existingTrackIdsOf st) initialSession")
      case None
      with assms auth False show ?thesis
        by (cases st) (simp_all add: updateLikedSongsSheet_def)
    next
      case (Some r)
      obtain res s1 where r: "r = (res, s1)" by (cases r)
      show ?thesis
      proof (cases res)
        case None
        with assms auth False Some r show ?thesis
          by (cases st) (simp_all add: updateLikedSongsSheet_def)
      next
        case found: (Some newTracks)
        show ?thesis
        proof (cases newTracks)
          case Nil
          with assms auth False Some r found show ?thesis
            by (cases st) (simp_all add: updateLikedSongsSheet_def newTracksOf_def)
        next
          case (Cons t ts)
          then have n: "newTracksOf fuel up st = Some (t # ts, s1)"
            using Some r found by (simp add: newTracksOf_def)
          from sync_inserts [OF auth False n] assms auth False n show ?thesis by auto
        qed
      qed
    qed
  qed
qed




lemma firstRow_populated: "firstRow (Sheet (h # r # rs)) = h"
  by (simp add: firstRow_def prepareSheet_def rowAt_def)

lemma dataRows_Sheet: "dataRows (Sheet (h # rs)) = rs"
  by (simp add: dataRows_def)

lemma sync_inserted:
  assumes "updateLikedSongsSheet fuel up st = Some (st', Inserted n)"
  shows "\<exists>found. newTracksOf fuel up st = Some found \<and> length (fst found) = n \<and> 0 < n \<and>
           st' = Sheet (firstRow st # newRowsOf up found @ dataRows st)"
  using sync_cases [OF assms] by auto

lemmas sync_eval = updateLikedSongsSheet_def isSpotifyAuthorized_def existingTrackIdsOf_def
  readExistingTrackIds_def getNewSavedTracks_def newSavedTracksLoop.simps fetchArtistGenres_def
  collectArtistIds_def prepareSheet_def insertRowsAfter_def writeRow_def writeCells_def
  appendRow_def rowValues_def rowAt_def cellAt_def header_def newRow_def trackGenres_def
  mkItem_def mkArtist_def example_defs

text \<open>
  C4. A run that inserts \<open>n\<close> rows leaves the sheet as: its first row, then the
  \<open>n\<close> rows of the new tracks in the order the walk returned them (rows 2 to
  \<open>n + 1\<close>), then the rows that were below the first row before, unchanged and in
  their order. Two runs in a row therefore leave: the first row, the second run's rows,
  the first run's rows, the rows from before. The first row is the header when the sheet
  was absent, had no row, or had one row with its first eight cells blank; otherwise it is
  the first row the sheet had.
\<close>

theorem new_rows_below_header:
  "(updateLikedSongsSheet fuel up st = Some (st', Inserted n) \<longrightarrow>
      (\<exists>found. newTracksOf fuel up st = Some found \<and> length (fst found) = n \<and> 0 < n \<and>
         st' = Sheet (firstRow st # newRowsOf up found @ dataRows st))) \<and>
   (updateLikedSongsSheet fuel up st = Some (st1, Inserted n1) \<and>
    updateLikedSongsSheet fuel2 up2 st1 = Some (st2, Inserted n2) \<longrightarrow>
      (\<exists>f1 f2. newTracksOf fuel up st = Some f1 \<and> newTracksOf fuel2 up2 st1 = Some f2 \<and>
         length (fst f1) = n1 \<and> length (fst f2) = n2 \<and>
         st2 = Sheet (firstRow st # newRowsOf up2 f2 @ newRowsOf up f1 @ dataRows st))) \<and>
   firstRow NoSheet = header \<and> firstRow (Sheet []) = header \<and>
   firstRow (Sheet [r]) =
     (if concat (rowValues 1 (length header) [r]) = [] then writeCells header r else r) \<and>
   firstRow (Sheet (h # r # rs)) = h"
proof (intro conjI impI)
  assume "updateLikedSongsSheet fuel up st = Some (st', Inserted n)"
  then show "\<exists>found. newTracksOf fuel up st = Some found \<and> length (fst found) = n \<and> 0 < n \<and>
         st' = Sheet (firstRow st # newRowsOf up found @ dataRows st)"
    by (rule sync_inserted)
next
  assume two: "updateLikedSongsSheet fuel up st = Some (st1, Inserted n1) \<and>
    updateLikedSongsSheet fuel2 up2 st1 = Some (st2, Inserted n2)"
  from two sync_inserted [of fuel up st st1 n1] obtain f1 where
    f1: "newTracksOf fuel up st = Some f1" "length (fst f1) = n1" "0 < n1"
      "st1 = Sheet (firstRow st # newRowsOf up f1 @ dataRows st)"
    by blast
  from two sync_inserted [of fuel2 up2 st1 st2 n2] obtain f2 where
    f2: "newTracksOf fuel2 up2 st1 = Some f2" "length (fst f2) = n2"
      "st2 = Sheet (firstRow st1 # newRowsOf up2 f2 @ dataRows st1)"
    by blast
  from f1 obtain x xs where rows: "newRowsOf up f1 = x # xs"
    by (cases "newRowsOf up f1") (auto simp: newRowsOf_def)
  have "firstRow st1 = firstRow st" "dataRows st1 = newRowsOf up f1 @ dataRows st"
    using f1(4) rows by (simp_all add: firstRow_populated dataRows_Sheet)
  with f1 f2 show "\<exists>f1 f2. newTracksOf fuel up st = Some f1 \<and> newTracksOf fuel2 up2 st1 = Some f2 \<and>
         length (fst f1) = n1 \<and> length (fst f2) = n2 \<and>
         st2 = Sheet (firstRow st # newRowsOf up2 f2 @ newRowsOf up f1 @ dataRows st)"
    by auto
next
  show "firstRow NoSheet = header"
    by (simp add: firstRow_def prepareSheet_def appendRow_def rowAt_def)
next
  show "firstRow (Sheet []) = header"
    by (simp add: firstRow_def prepareSheet_def appendRow_def rowAt_def)
next
  show "firstRow (Sheet [r]) =
     (if concat (rowValues 1 (length header) [r]) = [] then writeCells header r else r)"
    by (simp add: firstRow_def prepareSheet_def rowAt_def writeRow_def)
next
  show "firstRow (Sheet (h # r # rs)) = h"
    by (rule firstRow_populated)
qed

text \<open>
  A sheet holding p, a run adding a, b and a run adding c, d: the rows end up in the order
  c, d, a, b, p below the header.
\<close>

theorem new_rows_below_header_witness:
  "updateLikedSongsSheet 1 exFirst (Sheet [header, rowOf ''p'']) =
     Some (Sheet [header, rowOf ''a'', rowOf ''b'', rowOf ''p''], Inserted 2) \<and>
   updateLikedSongsSheet 1 exSecond (Sheet [header, rowOf ''a'', rowOf ''b'', rowOf ''p'']) =
     Some (Sheet [header, rowOf ''c'', rowOf ''d'', rowOf ''a'', rowOf ''b'', rowOf ''p''],
           Inserted 2) \<and>
   newRowsOf exFirst ([mkItem ''a'' [], mkItem ''b'' []], fetched initialSession [savedTracksUrl]) =
     [rowOf ''a'', rowOf ''b''] \<and>
   newRowsOf exSecond ([mkItem ''c'' [], mkItem ''d'' []], fetched initialSession [savedTracksUrl]) =
     [rowOf ''c'', rowOf ''d'']"
proof -
  let ?st0 = "Sheet [header, rowOf ''p'']"
  let ?st1 = "Sheet [header, rowOf ''a'', rowOf ''b'', rowOf ''p'']"
  let ?st2 = "Sheet [header, rowOf ''c'', rowOf ''d'', rowOf ''a'', rowOf ''b'', rowOf ''p'']"
  let ?s1 = "fetched initialSession [savedTracksUrl]"
  have r1: "updateLikedSongsSheet 1 exFirst ?st0 = Some (?st1, Inserted 2)"
    by (simp add: sync_eval exFirst_def rowOf_def)
  have n1: "newTracksOf 1 exFirst ?st0 = Some ([mkItem ''a'' [], mkItem ''b'' []], ?s1)"
    by (simp add: sync_eval newTracksOf_def exFirst_def rowOf_def)
  have n2: "newTracksOf 1 exSecond ?st1 = Some ([mkItem ''c'' [], mkItem ''d'' []], ?s1)"
    by (simp add: sync_eval newTracksOf_def exSecond_def rowOf_def)
  have w1: "newRowsOf exFirst ([mkItem ''a'' [], mkItem ''b'' []], ?s1) = [rowOf ''a'', rowOf ''b'']"
    by (simp add: newRowsOf_def sync_eval rowOf_def)
  have w2: "newRowsOf exSecond ([mkItem ''c'' [], mkItem ''d'' []], ?s1) = [rowOf ''c'', rowOf ''d'']"
    by (simp add: newRowsOf_def sync_eval rowOf_def)
  have r2': "\<exists>st2. updateLikedSongsSheet 1 exSecond ?st1 = Some (st2, Inserted 2)"
    by (simp add: sync_eval exSecond_def rowOf_def)
  then obtain st2 where r2: "updateLikedSongsSheet 1 exSecond ?st1 = Some (st2, Inserted 2)"
    by blast
  from new_rows_below_header [of 1 exFirst ?st0 ?st1 2 ?st1 2 1 exSecond st2 2] r1 r2
  obtain f1 f2 where "newTracksOf 1 exFirst ?st0 = Some f1" "newTracksOf 1 exSecond ?st1 = Some f2"
    "st2 = Sheet (firstRow ?st0 # newRowsOf exSecond f2 @ newRowsOf exFirst f1 @ dataRows ?st0)"
    by blast
  with n1 n2 w1 w2 have "st2 = ?st2"
    by (simp add: firstRow_populated dataRows_Sheet)
  with r1 r2 w1 w2 show ?thesis by simp
qed




text \<open>The key column: what a run reads from it and what it adds to it.\<close>

lemma indexOf_TrackID: "indexOf header ''Track ID'' = Some 5"
  by (simp add: header_def)

lemma fold_insert_cells:
  "fold (\<lambda>row ids. if cellAt row c \<noteq> [] then insert (cellAt row c) ids else ids) rows A =
     A \<union> {x \<in> set (map (\<lambda>row. cellAt row c) rows). x \<noteq> []}"
  by (induction rows arbitrary: A) auto

lemma existingTrackIdsOf_column:
  "existingTrackIdsOf st = {x \<in> set (trackIdColumn st). x \<noteq> []}"
proof (cases st)
  case (Sheet data)
  show ?thesis
  proof (cases "length data > 1")
    case True
    with Sheet show ?thesis
      by (simp add: existingTrackIdsOf_def readExistingTrackIds_def indexOf_TrackID
            fold_insert_cells trackIdColumn_def dataRows_def)
  next
    case False
    then have "drop 1 data = []" by simp
    with Sheet False show ?thesis
      by (simp add: existingTrackIdsOf_def readExistingTrackIds_def trackIdColumn_def
            dataRows_def)
  qed
qed (simp_all add: existingTrackIdsOf_def trackIdColumn_def dataRows_def)

lemma newRow_key: "cellAt (newRow gm item) 5 = track_id (track item)"
  by (simp add: newRow_def cellAt_def Let_def)

lemma trackIdColumn_inserted:
  "trackIdColumn (Sheet (h # newRowsOf up found @ dataRows st)) =
     map (\<lambda>t. track_id (track t)) (fst found) @ trackIdColumn st"
  by (simp add: trackIdColumn_def dataRows_Sheet newRowsOf_def newRow_key o_def)

lemma newTracksOf_walk:
  assumes "newTracksOf fuel up st = Some (ts, s1)"
  shows "\<exists>ps c. walk up initialSession (Some savedTracksUrl) ps s1 c \<and> length ps \<le> fuel \<and>
           ts = takeWhile (isNew (existingTrackIdsOf st)) (concat (map pageItems ps))"
proof -
  have "getNewSavedTracks fuel up (existingTrackIdsOf st) initialSession = Some (Some ts, s1)"
    using assms by (auto simp: newTracksOf_def split: option.splits prod.splits)
  from loop_success_walk [of fuel up "existingTrackIdsOf st" "Some savedTracksUrl" "[]"
      initialSession ts s1] this
  show ?thesis unfolding getNewSavedTracks_def append_Nil by blast
qed

lemma newTracksOf_new:
  assumes "newTracksOf fuel up st = Some found"
  shows "\<forall>t\<in>set (fst found). track_id (track t) \<notin> existingTrackIdsOf st"
proof -
  obtain ts s1 where f: "found = (ts, s1)" by (cases found)
  from newTracksOf_walk [of fuel up st ts s1] assms f obtain ps where
    "ts = takeWhile (isNew (existingTrackIdsOf st)) (concat (map pageItems ps))"
    by blast
  then have "\<forall>t\<in>set ts. isNew (existingTrackIdsOf st) t"
    by (auto dest: set_takeWhileD)
  with f show ?thesis by (simp add: isNew_def)
qed





text \<open>
  C3, as the specification states it, fails: the code removes no id that the upstream
  serves twice within one walk. From an absent sheet, a page holding the track a twice
  leaves two rows with the id a.
\<close>

theorem duplicate_ids_counterexample:
  "distinct (trackIdColumn NoSheet) \<and>
   updateLikedSongsSheet 1 exRepeated NoSheet =
     Some (Sheet [header, rowOf ''a'', rowOf ''a''], Inserted 2) \<and>
   trackIdColumn (Sheet [header, rowOf ''a'', rowOf ''a'']) = [''a'', ''a''] \<and>
   \<not> distinct (trackIdColumn (Sheet [header, rowOf ''a'', rowOf ''a'']))"
  by (simp add: sync_eval exRepeated_def rowOf_def trackIdColumn_def dataRows_def)

text \<open>
  C3, amended. The tracks a walk returns never have an id of the key set read from the
  sheet. If the ids in the key column are pairwise different before a run, and the tracks
  the walk returns have pairwise different, non-empty ids, then the ids in the key column
  are pairwise different after the run.
\<close>

theorem track_ids_stay_unique:
  "(\<forall>found. newTracksOf fuel up st = Some found \<longrightarrow>
      (\<forall>t\<in>set (fst found). track_id (track t) \<notin> existingTrackIdsOf st)) \<and>
   (updateLikedSongsSheet fuel up st = Some (st', out) \<and> distinct (trackIdColumn st) \<and>
    (\<forall>found. newTracksOf fuel up st = Some found \<longrightarrow>
       distinct (map (\<lambda>t. track_id (track t)) (fst found)) \<and>
       (\<forall>t\<in>set (fst found). track_id (track t) \<noteq> []))
    \<longrightarrow> distinct (trackIdColumn st'))"
proof (intro conjI impI allI)
  fix found
  assume "newTracksOf fuel up st = Some found"
  then show "\<forall>t\<in>set (fst found). track_id (track t) \<notin> existingTrackIdsOf st"
    by (rule newTracksOf_new)
next
  assume a: "updateLikedSongsSheet fuel up st = Some (st', out) \<and> distinct (trackIdColumn st) \<and>
    (\<forall>found. newTracksOf fuel up st = Some found \<longrightarrow>
       distinct (map (\<lambda>t. track_id (track t)) (fst found)) \<and>
       (\<forall>t\<in>set (fst found). track_id (track t) \<noteq> []))"
  then have run: "updateLikedSongsSheet fuel up st = Some (st', out)"
    and d: "distinct (trackIdColumn st)" by simp_all
  consider (same) "st' = st"
  | (ins) t ts s1 where "newTracksOf fuel up st = Some (t # ts, s1)"
      "st' = Sheet (firstRow st # newRowsOf up (t # ts, s1) @ dataRows st)"
    using sync_cases [OF run] by blast
  then show "distinct (trackIdColumn st')"
  proof cases
    case same
    with d show ?thesis by simp
  next
    case ins
    let ?ids = "map (\<lambda>t. track_id (track t)) (t # ts)"
    from a ins(1) have u: "distinct ?ids" and ne: "\<forall>x\<in>set ?ids. x \<noteq> []" by auto
    from newTracksOf_new [OF ins(1)] have "\<forall>x\<in>set ?ids. x \<notin> existingTrackIdsOf st" by auto
    with ne have "set ?ids \<inter> set (trackIdColumn st) = {}"
      by (auto simp: existingTrackIdsOf_column)
    with u d ins(2) trackIdColumn_inserted [of "firstRow st" up "(t # ts, s1)" st]
    show ?thesis by simp
  qed
qed

theorem track_ids_stay_unique_witness:
  "updateLikedSongsSheet 1 exFirst (Sheet [header, rowOf ''p'']) =
     Some (Sheet [header, rowOf ''a'', rowOf ''b'', rowOf ''p''], Inserted 2) \<and>
   newTracksOf 1 exFirst (Sheet [header, rowOf ''p'']) =
     Some ([mkItem ''a'' [], mkItem ''b'' []], fetched initialSession [savedTracksUrl]) \<and>
   existingTrackIdsOf (Sheet [header, rowOf ''p'']) = {''p''} \<and>
   distinct (trackIdColumn (Sheet [header, rowOf ''p''])) \<and>
   distinct (trackIdColumn (Sheet [header, rowOf ''a'', rowOf ''b'', rowOf ''p''])) \<and>
   trackIdColumn (Sheet [header, rowOf ''a'', rowOf ''b'', rowOf ''p'']) = [''a'', ''b'', ''p'']"
proof -
  let ?st0 = "Sheet [header, rowOf ''p'']"
  let ?st1 = "Sheet [header, rowOf ''a'', rowOf ''b'', rowOf ''p'']"
  have r1: "updateLikedSongsSheet 1 exFirst ?st0 = Some (?st1, Inserted 2)"
    by (simp add: sync_eval exFirst_def rowOf_def)
  have n1: "newTracksOf 1 exFirst ?st0 =
      Some ([mkItem ''a'' [], mkItem ''b'' []], fetched initialSession [savedTracksUrl])"
    by (simp add: sync_eval newTracksOf_def exFirst_def rowOf_def)
  have k: "existingTrackIdsOf ?st0 = {''p''}"
    by (simp add: sync_eval rowOf_def)
  have d0: "distinct (trackIdColumn ?st0)"
    by (simp add: trackIdColumn_def dataRows_def)
  have c1: "trackIdColumn ?st1 = [''a'', ''b'', ''p'']"
    by (simp add: trackIdColumn_def dataRows_def rowOf_def newRow_key mkItem_def)
  have ids: "\<forall>found. newTracksOf 1 exFirst ?st0 = Some found \<longrightarrow>
      distinct (map (\<lambda>t. track_id (track t)) (fst found)) \<and>
      (\<forall>t\<in>set (fst found). track_id (track t) \<noteq> [])"
    using n1 by (auto simp: mkItem_def)
  have d1: "distinct (trackIdColumn ?st1)"
    using track_ids_stay_unique [of 1 exFirst ?st0 ?st1 "Inserted 2"] r1 d0 ids by blast
  show ?thesis by (intro conjI r1 n1 k d0 d1 c1)
qed




























end
